theory Spec2Isabelle
  imports Main "HOL-Library.Sublist"
begin

section \<open>The workflow execution service of \<^verbatim>\<open>backend/server.js\<close>\<close>

text \<open>
  A shallow embedding of the enhanced Express backend: the in-memory response cache
  (\<^verbatim>\<open>getCacheKey\<close>, \<^verbatim>\<open>getFromCache\<close>, \<^verbatim>\<open>setCache\<close>), the upstream client
  \<^verbatim>\<open>callGeminiAPI\<close>, the \<^verbatim>\<open>/run-workflow\<close> handler and the graph check
  \<^verbatim>\<open>checkIfDAG\<close>. JavaScript strings are modelled as \<^typ>\<open>string\<close>, a thrown
  \<^verbatim>\<open>Error\<close> by its \<^verbatim>\<open>message\<close>, mutation by explicit state passing, and
  \<^verbatim>\<open>Date.now()\<close> by the millisecond reading passed to the function that takes it.
  The middleware in front of the handlers (CORS, rate limiting, schema validation) and the
  logger are not part of the model: the handlers are described on the bodies that reach
  them, and logging changes nothing they return.
\<close>

subsection \<open>JavaScript strings\<close>

text \<open>\<^verbatim>\<open>s.includes(t)\<close>: \<^verbatim>\<open>t\<close> occurs in \<^verbatim>\<open>s\<close> as a contiguous substring.\<close>

fun str_includes :: "string \<Rightarrow> string \<Rightarrow> bool" where
  "str_includes [] t = (t = [])"
| "str_includes (c # cs) t = (prefix t (c # cs) \<or> str_includes cs t)"

text \<open>Truthiness of a string: only the empty string is falsy.\<close>

definition truthy :: "string \<Rightarrow> bool" where
  "truthy s = (s \<noteq> [])"

text \<open>
  \<^verbatim>\<open>x || d\<close> for an optional string \<^verbatim>\<open>x\<close> (\<open>None\<close> is \<^verbatim>\<open>undefined\<close>): the
  default is taken when \<^verbatim>\<open>x\<close> is missing or empty.
\<close>

definition or_default :: "string option \<Rightarrow> string \<Rightarrow> string" where
  "or_default x d = (case x of None \<Rightarrow> d | Some s \<Rightarrow> if truthy s then s else d)"

subsection \<open>The response cache (\<^verbatim>\<open>const cache = new Map()\<close>)\<close>

text \<open>
  A \<^verbatim>\<open>Map\<close> enumerates its keys in insertion order and holds each key once, so it is
  an association list with the oldest key first. \<^verbatim>\<open>set\<close> on a key that is present
  replaces the value where the key stands; on a new key it appends.
\<close>

record cache_entry =
  data :: string
  timestamp :: int

type_synonym cache = "(string \<times> cache_entry) list"

definition map_get :: "cache \<Rightarrow> string \<Rightarrow> cache_entry option" where
  "map_get c k = map_of c k"

fun map_set :: "string \<Rightarrow> cache_entry \<Rightarrow> cache \<Rightarrow> cache" where
  "map_set k e [] = [(k, e)]"
| "map_set k e ((k', e') # c) =
     (if k' = k then (k, e) # c else (k', e') # map_set k e c)"

definition map_delete :: "string \<Rightarrow> cache \<Rightarrow> cache" where
  "map_delete k c = filter (\<lambda>p. fst p \<noteq> k) c"

definition map_keys :: "cache \<Rightarrow> string list" where
  "map_keys c = map fst c"

definition CACHE_TTL :: int where
  "CACHE_TTL = 5 * 60 * 1000"

text \<open>
  \<^verbatim>\<open>getFromCache(key)\<close>, with \<open>now\<close> the value of \<^verbatim>\<open>Date.now()\<close>. The result
  \<open>None\<close> is \<^verbatim>\<open>null\<close>. A stored entry is an object and so always truthy; on every
  path that does not return the data the key is deleted.
\<close>

definition getFromCache :: "int \<Rightarrow> string \<Rightarrow> cache \<Rightarrow> string option \<times> cache" where
  "getFromCache now key c =
     (case map_get c key of
        Some cached \<Rightarrow>
          if now - timestamp cached < CACHE_TTL then (Some (data cached), c)
          else (None, map_delete key c)
      | None \<Rightarrow> (None, map_delete key c))"

text \<open>
  \<^verbatim>\<open>setCache(key, data)\<close>: the entry is stored first; then, if the map holds more than
  1000 entries, the first 500 keys of the enumeration are deleted one by one.
\<close>

definition setCache :: "int \<Rightarrow> string \<Rightarrow> string \<Rightarrow> cache \<Rightarrow> cache" where
  "setCache now key d c =
     (let c1 = map_set key \<lparr>data = d, timestamp = now\<rparr> c
      in if length c1 > 1000
         then (let oldestKeys = take 500 (map_keys c1)
               in foldl (\<lambda>m k. map_delete k m) c1 oldestKeys)
         else c1)"

text \<open>
  The cache is private to the module: every state it takes is reached from the empty map
  by calls of the two functions above.
\<close>

inductive reachable_cache :: "cache \<Rightarrow> bool" where
  empty: "reachable_cache []"
| after_set: "reachable_cache c \<Longrightarrow> reachable_cache (setCache now key d c)"
| after_get: "reachable_cache c \<Longrightarrow> reachable_cache (snd (getFromCache now key c))"

subsection \<open>The upstream client (\<^verbatim>\<open>callGeminiAPI\<close>)\<close>

text \<open>
  The values a workflow input may take after schema validation (a string, a number or a
  boolean). The program only ever prints a number (into a template, into the cache key,
  into the request text), so a number is carried as its decimal rendering, which is what
  \<^verbatim>\<open>String(n)\<close> and \<^verbatim>\<open>JSON.stringify(n)\<close> both produce.
\<close>

datatype jsval = JString string | JNumber string | JBoolean bool

fun to_string :: "jsval \<Rightarrow> string" where
  "to_string (JString s) = s"
| "to_string (JNumber r) = r"
| "to_string (JBoolean b) = (if b then ''true'' else ''false'')"

text \<open>
  What \<^verbatim>\<open>fetch\<close> hands back. A response carries its status line and what the code
  reads of the body: \<open>json_failure\<close> is the message with which \<^verbatim>\<open>response.json()\<close>
  rejects (if it does), \<open>error_message\<close> is \<^verbatim>\<open>errorData.error?.message\<close>, and
  \<open>candidate_text\<close> is \<^verbatim>\<open>data.candidates[0].content.parts[0].text\<close> when that
  path exists. A body that parses is taken to be a JSON object, and the text of a
  candidate to be a string. \<^verbatim>\<open>response.ok\<close> is the status range 200 to 299.
\<close>

record http_response =
  status :: nat
  statusText :: string
  json_failure :: "string option"
  error_message :: "string option"
  candidate_text :: "string option"

datatype fetch_result = NetworkError string | Response http_response

definition ok :: "http_response \<Rightarrow> bool" where
  "ok r = (200 \<le> status r \<and> status r \<le> 299)"

text \<open>
  The network is an oracle: the answer to the \<open>i\<close>-th request the server has sent,
  given its URL and the text it carries.
\<close>

type_synonym fetch = "nat \<Rightarrow> string \<Rightarrow> string \<Rightarrow> fetch_result"

record gemini_params =
  p_model :: string
  p_system :: string
  p_prompt :: jsval
  p_apiKey :: string

definition API_URL :: "gemini_params \<Rightarrow> string" where
  "API_URL p = ''https://generativelanguage.googleapis.com/v1beta/models/'' @ p_model p
                 @ '':generateContent?key='' @ p_apiKey p"

definition request_text :: "gemini_params \<Rightarrow> string" where
  "request_text p = p_system p @ [CHR 0x0A, CHR 0x0A] @ to_string (p_prompt p)"

text \<open>
  The state of the server process: the cache, and two counters that record what the
  upstream client has done (requests sent, one-second waits taken).
\<close>

record server =
  cache :: cache
  api_calls :: nat
  delays :: nat

text \<open>
  \<^verbatim>\<open>callGeminiAPI({model, system, prompt, apiKey, retries})\<close>. \<open>Inl m\<close> is a thrown
  error with message \<open>m\<close>, \<open>Inr t\<close> the generated text. Logging is left out.
\<close>

fun callGeminiAPI :: "fetch \<Rightarrow> gemini_params \<Rightarrow> nat \<Rightarrow> server \<Rightarrow> (string + string) \<times> server" where
  "callGeminiAPI fetch p retries s =
     (let s1 = s\<lparr>api_calls := Suc (api_calls s)\<rparr> in
      case fetch (api_calls s) (API_URL p) (request_text p) of
        NetworkError m \<Rightarrow> (Inl m, s1)
      | Response r \<Rightarrow>
          if \<not> ok r then
            (let errorMessage =
               or_default (case json_failure r of None \<Rightarrow> error_message r | Some f \<Rightarrow> None)
                 (statusText r)
             in if retries > 0 \<and> (status r = 429 \<or> status r \<ge> 500)
                then callGeminiAPI fetch p (retries - 1) (s1\<lparr>delays := Suc (delays s1)\<rparr>)
                else (Inl (''Gemini API error: '' @ errorMessage), s1))
          else
            (case json_failure r of
               Some m \<Rightarrow> (Inl m, s1)
             | None \<Rightarrow>
                 (case candidate_text r of
                    Some t \<Rightarrow> (Inr t, s1)
                  | None \<Rightarrow> (Inl ''No response generated from Gemini API'', s1))))"

subsection \<open>The \<^verbatim>\<open>/run-workflow\<close> handler\<close>

text \<open>
  The request body as the handler receives it, after \<^verbatim>\<open>validateWithJoi(workflowSchema)\<close>
  has accepted it: \<^verbatim>\<open>nodes\<close> is an array of objects with string \<^verbatim>\<open>id\<close> and
  \<^verbatim>\<open>type\<close>; \<^verbatim>\<open>edges\<close>, \<^verbatim>\<open>inputs\<close> and \<^verbatim>\<open>llmConfig\<close> are optional (\<open>None\<close>
  is \<^verbatim>\<open>undefined\<close>). Of a node's \<^verbatim>\<open>data\<close> the handler reads \<^verbatim>\<open>inputName\<close> only,
  taken to be a string when present. \<^verbatim>\<open>inputs\<close> lists its entries in the order
  \<^verbatim>\<open>Object.entries\<close> enumerates them.
\<close>

record node =
  nid :: string
  ntype :: string
  inputName :: "string option"

record edge =
  source :: string
  target :: string

record llm_config =
  apiKey :: "string option"
  model :: "string option"
  system :: "string option"
  prompt :: "string option"

record request =
  nodes :: "node list"
  edges :: "edge list option"
  inputs :: "(string \<times> jsval) list option"
  llmConfig :: "llm_config option"

text \<open>\<^verbatim>\<open>llmConfig?.f\<close>\<close>

definition cfg :: "request \<Rightarrow> (llm_config \<Rightarrow> string option) \<Rightarrow> string option" where
  "cfg req f = (case llmConfig req of None \<Rightarrow> None | Some c \<Rightarrow> f c)"

text \<open>\<^verbatim>\<open>x || y\<close> where both sides are optional strings.\<close>

definition or_else :: "string option \<Rightarrow> string option \<Rightarrow> string option" where
  "or_else x y = (case x of None \<Rightarrow> y | Some s \<Rightarrow> if truthy s then Some s else y)"

text \<open>
  \<^verbatim>\<open>subject.replace(new RegExp(pattern, 'g'), replacement)\<close> belongs to the JavaScript
  engine and is a parameter of the model: \<open>Inl m\<close> when the constructor throws a
  \<^verbatim>\<open>SyntaxError\<close> with message \<open>m\<close>, \<open>Inr r\<close> with the result otherwise.
\<close>

type_synonym regex_replace = "string \<Rightarrow> string \<Rightarrow> string \<Rightarrow> string + string"

text \<open>
  What surrounds one request: the process-wide key, the regular expression engine, the
  network, and the two clock readings the request takes (in \<^verbatim>\<open>getFromCache\<close> and in
  \<^verbatim>\<open>setCache\<close>).
\<close>

record world =
  GOOGLE_API_KEY :: "string option"
  regex :: regex_replace
  network :: fetch
  now_probe :: int
  now_store :: int

text \<open>
  One turn of the loop over \<^verbatim>\<open>Object.entries(inputs)\<close>. Once the user prompt has been
  replaced by a number or a boolean, the next turn's \<^verbatim>\<open>userPrompt.replace\<close> is a call
  of \<^verbatim>\<open>undefined\<close> and throws a \<^verbatim>\<open>TypeError\<close>.
\<close>

definition substitute ::
  "regex_replace \<Rightarrow> node list \<Rightarrow> string \<times> jsval \<Rightarrow> string \<times> jsval \<Rightarrow> string + (string \<times> jsval)" where
  "substitute rx inputNodes entry prompts =
     (case entry of (nodeId, value) \<Rightarrow>
      case prompts of (systemPrompt, userPrompt) \<Rightarrow>
      case find (\<lambda>n. nid n = nodeId) inputNodes of
        None \<Rightarrow> Inr (systemPrompt, userPrompt)
      | Some inputNode \<Rightarrow>
          (let name = or_default (inputName inputNode) nodeId;
               pattern = ''{{'' @ name @ ''}}''
           in case rx pattern systemPrompt (to_string value) of
                Inl m \<Rightarrow> Inl m
              | Inr systemPrompt' \<Rightarrow>
                  (case userPrompt of
                     JString u \<Rightarrow>
                       (case rx pattern u (to_string value) of
                          Inl m \<Rightarrow> Inl m
                        | Inr u' \<Rightarrow>
                            Inr (systemPrompt',
                                 if \<not> str_includes u' ''{{'' then value else JString u'))
                   | JNumber r \<Rightarrow> Inl ''userPrompt.replace is not a function''
                   | JBoolean b \<Rightarrow> Inl ''userPrompt.replace is not a function'')))"

fun substitute_all ::
  "regex_replace \<Rightarrow> node list \<Rightarrow> (string \<times> jsval) list \<Rightarrow> string \<times> jsval \<Rightarrow> string + (string \<times> jsval)" where
  "substitute_all rx inputNodes [] prompts = Inr prompts"
| "substitute_all rx inputNodes (entry # entries) prompts =
     (case substitute rx inputNodes entry prompts of
        Inl m \<Rightarrow> Inl m
      | Inr prompts' \<Rightarrow> substitute_all rx inputNodes entries prompts')"

text \<open>
  \<^verbatim>\<open>getCacheKey(data)\<close> is \<^verbatim>\<open>JSON.stringify(data)\<close>; the handler calls it on an
  object with the properties \<^verbatim>\<open>model\<close>, \<^verbatim>\<open>system\<close> and \<^verbatim>\<open>prompt\<close>, in this
  order. A string is quoted with the escapes of JSON.
\<close>

definition hex_digit :: "nat \<Rightarrow> char" where
  "hex_digit n = ''0123456789abcdef'' ! (n mod 16)"

definition json_escape :: "char \<Rightarrow> string" where
  "json_escape c =
     (if c = CHR 0x22 then [CHR 0x5C, CHR 0x22]
      else if c = CHR 0x5C then [CHR 0x5C, CHR 0x5C]
      else if c = CHR 0x08 then [CHR 0x5C, CHR ''b'']
      else if c = CHR 0x09 then [CHR 0x5C, CHR ''t'']
      else if c = CHR 0x0A then [CHR 0x5C, CHR ''n'']
      else if c = CHR 0x0C then [CHR 0x5C, CHR ''f'']
      else if c = CHR 0x0D then [CHR 0x5C, CHR ''r'']
      else if (of_char c :: nat) < 32
        then [CHR 0x5C, CHR ''u'', CHR ''0'', CHR ''0'',
              hex_digit (of_char c div 16), hex_digit (of_char c mod 16)]
      else [c])"

definition json_quote :: "string \<Rightarrow> string" where
  "json_quote s = [CHR 0x22] @ concat (map json_escape s) @ [CHR 0x22]"

fun json_of :: "jsval \<Rightarrow> string" where
  "json_of (JString s) = json_quote s"
| "json_of (JNumber r) = r"
| "json_of (JBoolean b) = (if b then ''true'' else ''false'')"

record cache_key_data =
  k_model :: string
  k_system :: string
  k_prompt :: jsval

definition getCacheKey :: "cache_key_data \<Rightarrow> string" where
  "getCacheKey d =
     ''{'' @ json_quote ''model'' @ '':'' @ json_quote (k_model d)
     @ '','' @ json_quote ''system'' @ '':'' @ json_quote (k_system d)
     @ '','' @ json_quote ''prompt'' @ '':'' @ json_of (k_prompt d) @ ''}''"

text \<open>
  The handler up to the cache probe (validation of the nodes, the prompts, the API key,
  the cache key). None of it touches the state. \<open>Inl m\<close> is a throw with message \<open>m\<close>;
  \<^verbatim>\<open>Object.entries(undefined)\<close> throws a \<^verbatim>\<open>TypeError\<close>. The test
  \<^verbatim>\<open>!nodes || !Array.isArray(nodes)\<close> cannot fire on a validated body.
\<close>

record prepared =
  outputNodes :: "node list"
  params :: gemini_params
  cacheKey :: string

definition no_api_key :: string where
  "no_api_key =
     ''No API key provided. Please set GOOGLE_API_KEY in .env file or provide a personal API key.''"

text \<open>The nodes the handler filters out of the request, and the prompts it builds.\<close>

definition inputNodes_of :: "request \<Rightarrow> node list" where
  "inputNodes_of req = filter (\<lambda>n. ntype n = ''customInput'') (nodes req)"

definition outputNodes_of :: "request \<Rightarrow> node list" where
  "outputNodes_of req = filter (\<lambda>n. ntype n = ''customOutput'') (nodes req)"

definition build_prompts :: "world \<Rightarrow> request \<Rightarrow> string + (string \<times> jsval)" where
  "build_prompts W req =
     (let systemPrompt = or_default (cfg req system) ''You are a helpful assistant.'';
          userPrompt = or_default (cfg req prompt) []
      in case inputs req of
           None \<Rightarrow> Inl ''Cannot convert undefined or null to object''
         | Some entries \<Rightarrow>
             substitute_all (regex W) (inputNodes_of req) entries
               (systemPrompt, JString userPrompt))"

definition prepare :: "world \<Rightarrow> request \<Rightarrow> string + prepared" where
  "prepare W req =
     (if length (inputNodes_of req) = 0 then Inl ''No input nodes found in workflow''
      else if length (outputNodes_of req) = 0 then Inl ''No output nodes found in workflow''
      else
        (case build_prompts W req of
           Inl m \<Rightarrow> Inl m
         | Inr (systemPrompt, userPrompt) \<Rightarrow>
             (case or_else (cfg req apiKey) (GOOGLE_API_KEY W) of
                None \<Rightarrow> Inl no_api_key
              | Some key \<Rightarrow>
                  if \<not> truthy key then Inl no_api_key
                  else
                    (let m = or_default (cfg req model) ''gemini-2.0-flash-exp''
                     in Inr \<lparr>outputNodes = outputNodes_of req,
                             params = \<lparr>p_model = m, p_system = systemPrompt,
                                        p_prompt = userPrompt, p_apiKey = key\<rparr>,
                             cacheKey = getCacheKey \<lparr>k_model = m, k_system = systemPrompt,
                                          k_prompt = userPrompt\<rparr>\<rparr>))))"

text \<open>
  The response. \<^verbatim>\<open>outputs\<close> is a plain object used as a mapping from node ids to the
  text; assigning a string to its property \<^verbatim>\<open>__proto__\<close> goes to the accessor of
  \<^verbatim>\<open>Object.prototype\<close>, which ignores a value that is not an object.
\<close>

datatype response =
  Success (outputs: "string \<rightharpoonup> string") (meta_model: string) (tokensUsed: nat)
| Failure (statusCode: nat) (error: string)

definition set_output :: "(string \<rightharpoonup> string) \<Rightarrow> string \<Rightarrow> string \<Rightarrow> (string \<rightharpoonup> string)" where
  "set_output out k v = (if k = ''__proto__'' then out else out(k \<mapsto> v))"

definition status_of :: "string \<Rightarrow> nat" where
  "status_of message =
     (if str_includes message ''API key'' then 401
      else if str_includes message ''Validation'' then 400
      else if str_includes message ''Gemini API'' then 502
      else 500)"

text \<open>
  The miss branch of the handler: \<^verbatim>\<open>callGeminiAPI\<close> is entered with its default of two
  retries and, when it returns, its text is stored under the cache key.
\<close>

definition call_and_store :: "world \<Rightarrow> prepared \<Rightarrow> server \<Rightarrow> (string + string) \<times> server" where
  "call_and_store W p s1 =
     (case callGeminiAPI (network W) (params p) 2 s1 of
        (Inl m, s2) \<Rightarrow> (Inl m, s2)
      | (Inr geminiResponse, s2) \<Rightarrow>
          (Inr geminiResponse,
           s2\<lparr>cache := setCache (now_store W) (cacheKey p) geminiResponse (cache s2)\<rparr>))"

text \<open>
  The cache probe. \<^verbatim>\<open>if (geminiResponse)\<close> takes the hit branch when the value read
  from the cache is truthy, so neither \<^verbatim>\<open>null\<close> nor the empty string is a hit.
\<close>

definition generate :: "world \<Rightarrow> prepared \<Rightarrow> server \<Rightarrow> (string + string) \<times> server" where
  "generate W p s =
     (case getFromCache (now_probe W) (cacheKey p) (cache s) of
        (None, c1) \<Rightarrow> call_and_store W p (s\<lparr>cache := c1\<rparr>)
      | (Some geminiResponse, c1) \<Rightarrow>
          if truthy geminiResponse then (Inr geminiResponse, s\<lparr>cache := c1\<rparr>)
          else call_and_store W p (s\<lparr>cache := c1\<rparr>))"

definition run_workflow :: "world \<Rightarrow> request \<Rightarrow> server \<Rightarrow> response \<times> server" where
  "run_workflow W req s =
     (case prepare W req of
        Inl m \<Rightarrow> (Failure (status_of m) m, s)
      | Inr p \<Rightarrow>
          (case generate W p s of
             (Inl m, s') \<Rightarrow> (Failure (status_of m) m, s')
           | (Inr geminiResponse, s') \<Rightarrow>
               (Success
                  (foldl (\<lambda>out n. set_output out (nid n) geminiResponse) Map.empty (outputNodes p))
                  (p_model (params p))
                  (length geminiResponse),
                s')))"

subsection \<open>The graph check (\<^verbatim>\<open>checkIfDAG\<close>)\<close>

text \<open>
  \<^verbatim>\<open>const adj = {}\<close> is a plain object, not a \<^verbatim>\<open>Map\<close>: besides its own properties
  (each holding an array of target ids) it has a prototype, at first
  \<^verbatim>\<open>Object.prototype\<close>. Reading \<^verbatim>\<open>adj[k]\<close> for a key that is not an own property
  finds what the prototype chain holds under \<^verbatim>\<open>k\<close>, and writing
  \<^verbatim>\<open>adj['__proto__'] = []\<close> creates no property: it runs the \<^verbatim>\<open>__proto__\<close> setter,
  which makes the new array the prototype of \<^verbatim>\<open>adj\<close>.
\<close>

datatype prototype = ObjectPrototype | ArrayObject "string list"

record adjacency =
  own :: "(string \<times> string list) list"
  proto :: prototype

text \<open>The property names of \<^verbatim>\<open>Object.prototype\<close> other than \<^verbatim>\<open>__proto__\<close>.\<close>

definition Object_prototype_names :: "string list" where
  "Object_prototype_names =
     [''constructor'', ''__defineGetter__'', ''__defineSetter__'', ''hasOwnProperty'',
      ''__lookupGetter__'', ''__lookupSetter__'', ''isPrototypeOf'',
      ''propertyIsEnumerable'', ''toString'', ''valueOf'', ''toLocaleString'']"

text \<open>The property names of \<^verbatim>\<open>Array.prototype\<close> (ECMAScript 2023), all of them functions.\<close>

definition Array_prototype_names :: "string list" where
  "Array_prototype_names =
     [''at'', ''concat'', ''constructor'', ''copyWithin'', ''entries'', ''every'', ''fill'',
      ''filter'', ''find'', ''findIndex'', ''findLast'', ''findLastIndex'', ''flat'',
      ''flatMap'', ''forEach'', ''includes'', ''indexOf'', ''join'', ''keys'',
      ''lastIndexOf'', ''map'', ''pop'', ''push'', ''reduce'', ''reduceRight'', ''reverse'',
      ''shift'', ''slice'', ''some'', ''sort'', ''splice'', ''toLocaleString'',
      ''toReversed'', ''toSorted'', ''toSpliced'', ''toString'', ''unshift'', ''values'',
      ''with'']"

text \<open>
  A key is an array index when it is the decimal numeral of a number, without sign or
  leading zero.
\<close>

fun decimal :: "nat \<Rightarrow> string" where
  "decimal n =
     (if n < 10 then [char_of (48 + n)]
      else decimal (n div 10) @ [char_of (48 + n mod 10)])"

definition parse_nat :: "string \<Rightarrow> nat" where
  "parse_nat k = foldl (\<lambda>a c. 10 * a + (of_char c - 48)) 0 k"

definition array_index :: "string \<Rightarrow> nat option" where
  "array_index k = (let i = parse_nat k in if decimal i = k then Some i else None)"

text \<open>What \<^verbatim>\<open>adj[k]\<close> evaluates to.\<close>

datatype property =
  OwnArray "string list"
| ProtoArray "string list"
| Element string
| Length nat
| Builtin
| Undefined

definition lookup :: "adjacency \<Rightarrow> string \<Rightarrow> property" where
  "lookup A k =
     (if k = ''__proto__'' then
        (case proto A of ObjectPrototype \<Rightarrow> Builtin | ArrayObject arr \<Rightarrow> ProtoArray arr)
      else
        (case map_of (own A) k of
           Some arr \<Rightarrow> OwnArray arr
         | None \<Rightarrow>
             (case proto A of
                ObjectPrototype \<Rightarrow>
                  if k \<in> set Object_prototype_names then Builtin else Undefined
              | ArrayObject arr \<Rightarrow>
                  (case array_index k of
                     Some i \<Rightarrow>
                       if i < length arr then Element (arr ! i) else Undefined
                   | None \<Rightarrow>
                       if k = ''length'' then Length (length arr)
                       else if k \<in> set Array_prototype_names \<or> k \<in> set Object_prototype_names
                         then Builtin
                       else Undefined))))"

text \<open>An own property keeps its place when it is assigned again; a new one comes last.\<close>

fun put :: "string \<Rightarrow> string list \<Rightarrow> (string \<times> string list) list \<Rightarrow> (string \<times> string list) list" where
  "put k v [] = [(k, v)]"
| "put k v ((k', v') # ps) = (if k' = k then (k, v) # ps else (k', v') # put k v ps)"

text \<open>\<^verbatim>\<open>adj[node.id] = []\<close>\<close>

definition add_node :: "adjacency \<Rightarrow> node \<Rightarrow> adjacency" where
  "add_node A n =
     (if nid n = ''__proto__'' then A\<lparr>proto := ArrayObject []\<rparr>
      else A\<lparr>own := put (nid n) [] (own A)\<rparr>)"

text \<open>
  \<^verbatim>\<open>if (adj[edge.source]) adj[edge.source].push(edge.target)\<close>: a truthy value that has
  no \<^verbatim>\<open>push\<close> makes the call throw a \<^verbatim>\<open>TypeError\<close>.
\<close>

definition add_edge :: "adjacency \<Rightarrow> edge \<Rightarrow> string + adjacency" where
  "add_edge A e =
     (case lookup A (source e) of
        OwnArray arr \<Rightarrow> Inr (A\<lparr>own := put (source e) (arr @ [target e]) (own A)\<rparr>)
      | ProtoArray arr \<Rightarrow> Inr (A\<lparr>proto := ArrayObject (arr @ [target e])\<rparr>)
      | Element s \<Rightarrow>
          if truthy s then Inl ''adj[edge.source].push is not a function'' else Inr A
      | Length n \<Rightarrow>
          if n \<noteq> 0 then Inl ''adj[edge.source].push is not a function'' else Inr A
      | Builtin \<Rightarrow> Inl ''adj[edge.source].push is not a function''
      | Undefined \<Rightarrow> Inr A)"

fun add_edges :: "adjacency \<Rightarrow> edge list \<Rightarrow> string + adjacency" where
  "add_edges A [] = Inr A"
| "add_edges A (e # es) =
     (case add_edge A e of Inl m \<Rightarrow> Inl m | Inr A' \<Rightarrow> add_edges A' es)"

text \<open>
  \<^verbatim>\<open>const neighbors = adj[nodeId] || []\<close> as the list \<^verbatim>\<open>for ... of\<close> runs through. A
  string is iterated character by character; a number, a function and
  \<^verbatim>\<open>Object.prototype\<close> are not iterable.
\<close>

definition neighbors :: "adjacency \<Rightarrow> string \<Rightarrow> string + string list" where
  "neighbors A nodeId =
     (case lookup A nodeId of
        OwnArray arr \<Rightarrow> Inr arr
      | ProtoArray arr \<Rightarrow> Inr arr
      | Element s \<Rightarrow> Inr (map (\<lambda>c. [c]) s)
      | Length n \<Rightarrow> if n \<noteq> 0 then Inl ''neighbors is not iterable'' else Inr []
      | Builtin \<Rightarrow> Inl ''neighbors is not iterable''
      | Undefined \<Rightarrow> Inr [])"

text \<open>
  \<^verbatim>\<open>Object.keys(adj)\<close>: the own keys that are array indices (below \<open>2\<^sup>3\<^sup>2 - 1\<close>) in
  ascending order, then the other own keys in the order of their creation.
\<close>

definition is_index_key :: "string \<Rightarrow> bool" where
  "is_index_key k = (case array_index k of None \<Rightarrow> False | Some i \<Rightarrow> i < 4294967295)"

definition Object_keys :: "adjacency \<Rightarrow> string list" where
  "Object_keys A =
     sort_key parse_nat (filter is_index_key (map fst (own A)))
     @ filter (\<lambda>k. \<not> is_index_key k) (map fst (own A))"

text \<open>
  \<^verbatim>\<open>hasCycle(nodeId)\<close> with the two sets it mutates, and the \<^verbatim>\<open>for\<close> loop over the
  neighbours of a node. \<open>Inr b\<close> is the value returned, \<open>Inl m\<close> a \<^verbatim>\<open>TypeError\<close>.
\<close>

type_synonym dfs_state = "string set \<times> string set"

function hasCycle :: "adjacency \<Rightarrow> string \<Rightarrow> dfs_state \<Rightarrow> (string + bool) \<times> dfs_state"
  and for_neighbors :: "adjacency \<Rightarrow> string list \<Rightarrow> dfs_state \<Rightarrow> (string + bool) \<times> dfs_state"
where
  "hasCycle A nodeId st =
     (case st of (visited, recStack) \<Rightarrow>
      if nodeId \<in> recStack then (Inr True, st)
      else if nodeId \<in> visited then (Inr False, st)
      else
        (case neighbors A nodeId of
           Inl m \<Rightarrow> (Inl m, (insert nodeId visited, insert nodeId recStack))
         | Inr ns \<Rightarrow>
             (case for_neighbors A ns (insert nodeId visited, insert nodeId recStack) of
                (Inr False, (visited', recStack')) \<Rightarrow>
                  (Inr False, (visited', recStack' - {nodeId}))
              | r \<Rightarrow> r)))"
| "for_neighbors A [] st = (Inr False, st)"
| "for_neighbors A (neighbor # rest) st =
     (case hasCycle A neighbor st of
        (Inr False, st') \<Rightarrow> for_neighbors A rest st'
      | r \<Rightarrow> r)"
  by pat_completeness auto

text \<open>
  The loop over \<^verbatim>\<open>Object.keys(adj)\<close> and the function itself. \<open>Inr b\<close> is the
  returned boolean, \<open>Inl m\<close> a \<^verbatim>\<open>TypeError\<close> that leaves the function.
\<close>

fun check_from :: "adjacency \<Rightarrow> string list \<Rightarrow> dfs_state \<Rightarrow> string + bool" where
  "check_from A [] st = Inr True"
| "check_from A (nodeId # rest) st =
     (case hasCycle A nodeId st of
        (Inl m, st') \<Rightarrow> Inl m
      | (Inr True, st') \<Rightarrow> Inr False
      | (Inr False, st') \<Rightarrow> check_from A rest st')"

definition build_adj :: "node list \<Rightarrow> edge list \<Rightarrow> string + adjacency" where
  "build_adj ns es = add_edges (foldl add_node \<lparr>own = [], proto = ObjectPrototype\<rparr> ns) es"

definition checkIfDAG :: "node list \<Rightarrow> edge list \<Rightarrow> string + bool" where
  "checkIfDAG ns es =
     (case build_adj ns es of
        Inl m \<Rightarrow> Inl m
      | Inr A \<Rightarrow> check_from A (Object_keys A) ({}, {}))"

text \<open>
  The \<^verbatim>\<open>/pipelines/parse\<close> handler on the parsed pipeline, the only caller of
  \<^verbatim>\<open>checkIfDAG\<close>. Every throw is answered with status 400.
\<close>

record pipeline =
  pipeline_nodes :: "node list option"
  pipeline_edges :: "edge list option"

datatype parse_response =
  Parsed (num_nodes: nat) (num_edges: nat) (is_dag: bool)
| Rejected (parse_status: nat) (parse_error: string)

definition pipelines_parse :: "pipeline \<Rightarrow> parse_response" where
  "pipelines_parse pipelineData =
     (case pipeline_nodes pipelineData of
        None \<Rightarrow> Rejected 400 ''Invalid nodes data''
      | Some ns \<Rightarrow>
          (case checkIfDAG ns (case pipeline_edges pipelineData of None \<Rightarrow> [] | Some es \<Rightarrow> es) of
             Inl m \<Rightarrow> Rejected 400 m
           | Inr isDAG \<Rightarrow>
               Parsed (length ns)
                 (case pipeline_edges pipelineData of None \<Rightarrow> 0 | Some es \<Rightarrow> length es)
                 isDAG))"

subsection \<open>Notions used in the proofs about the graph check\<close>

text \<open>
  The set of keys from which \<^verbatim>\<open>hasCycle\<close> can descend: those with a neighbour to
  iterate over. It is finite, and bounds the depth of the recursion.
\<close>

definition expandable :: "adjacency \<Rightarrow> string set" where
  "expandable A =
     fst ` set (own A) \<union> {''__proto__''} \<union>
     (case proto A of ObjectPrototype \<Rightarrow> {} | ArrayObject arr \<Rightarrow> decimal ` {0..<length arr})"

text \<open>
  An adjacency object as the nodes alone leave it: no own key is \<^verbatim>\<open>__proto__\<close> and
  every own array is empty.
\<close>

definition bare :: "adjacency \<Rightarrow> bool" where
  "bare A = (\<forall>p \<in> set (own A). fst p \<noteq> ''__proto__'' \<and> snd p = [])"

text \<open>
  An id is ordinary when \<^verbatim>\<open>Object.prototype\<close> has no property of that name. A graph of
  ordinary ids leaves the prototype of \<^verbatim>\<open>adj\<close> alone and reads nothing from it.
\<close>

definition ordinary :: "string \<Rightarrow> bool" where
  "ordinary k = (k \<noteq> ''__proto__'' \<and> k \<notin> set Object_prototype_names)"

definition ordinary_graph :: "node list \<Rightarrow> edge list \<Rightarrow> bool" where
  "ordinary_graph ns es =
     ((\<forall>n \<in> set ns. ordinary (nid n)) \<and> (\<forall>e \<in> set es. ordinary (source e) \<and> ordinary (target e)))"

text \<open>The adjacency objects such graphs build, and the edges they record.\<close>

definition good :: "adjacency \<Rightarrow> bool" where
  "good A =
     (proto A = ObjectPrototype \<and>
      (\<forall>p \<in> set (own A). ordinary (fst p) \<and> (\<forall>t \<in> set (snd p). ordinary t)))"

definition has_edge :: "adjacency \<Rightarrow> string \<Rightarrow> string \<Rightarrow> bool" where
  "has_edge A s t = (case map_of (own A) s of None \<Rightarrow> False | Some arr \<Rightarrow> t \<in> set arr)"

text \<open>
  What a call of the search promises from the state \<open>st\<close>, for the nodes \<open>seen\<close> it
  was asked to look at: it does not throw; and if it reports no cycle, it has restored the
  recursion stack, has visited the nodes it was asked about, none of them was on the stack,
  and no node it visited on the way has an edge to itself.
\<close>

definition dfs_ok :: "adjacency \<Rightarrow> string set \<Rightarrow> dfs_state \<Rightarrow> (string + bool) \<times> dfs_state \<Rightarrow> bool" where
  "dfs_ok A seen st res =
     (case res of
        (Inl m, st') \<Rightarrow> False
      | (Inr True, st') \<Rightarrow> True
      | (Inr False, st') \<Rightarrow>
          snd st' = snd st \<and> fst st \<subseteq> fst st' \<and> seen \<subseteq> fst st' \<and> seen \<inter> snd st = {} \<and>
          (\<forall>v \<in> fst st' - fst st. \<not> has_edge A v v))"

subsection \<open>Reference points for the claims\<close>

text \<open>
  \<^verbatim>\<open>setCache\<close> as the specification words it: the entry count is compared with the
  capacity and the oldest half evicted before the new entry is inserted.
\<close>

definition setCache_as_specified :: "int \<Rightarrow> string \<Rightarrow> string \<Rightarrow> cache \<Rightarrow> cache" where
  "setCache_as_specified now key d c =
     (let c0 = (if length c > 1000 then drop (length c div 2) c else c)
      in map_set key \<lparr>data = d, timestamp = now\<rparr> c0)"

text \<open>
  A cache filled to its capacity: the \<open>n\<close> keys \<^verbatim>\<open>""\<close>, \<^verbatim>\<open>"k"\<close>, \<^verbatim>\<open>"kk"\<close>, ...,
  each stored by one call of \<^verbatim>\<open>setCache\<close> at time 0.
\<close>

definition filled_cache :: "nat \<Rightarrow> cache" where
  "filled_cache n = map (\<lambda>i. (replicate i CHR ''k'', \<lparr>data = ''v'', timestamp = 0\<rparr>)) [0..<n]"

text \<open>Networks for the examples: a response with a status line and, possibly, a text.\<close>

definition reply :: "nat \<Rightarrow> string \<Rightarrow> string option \<Rightarrow> fetch_result" where
  "reply st line txt =
     Response \<lparr>status = st, statusText = line, json_failure = None, error_message = None,
               candidate_text = txt\<rparr>"

definition rate_limited_twice :: fetch where
  "rate_limited_twice i url txt =
     (if i < 2 then reply 429 ''Too Many Requests'' None else reply 200 ''OK'' (Some ''hello''))"

definition not_found :: fetch where
  "not_found i url txt = reply 404 ''Not Found'' None"

definition empty_then_text :: fetch where
  "empty_then_text i url txt =
     (if i = 0 then reply 200 ''OK'' (Some []) else reply 200 ''OK'' (Some ''second''))"

definition idle :: server where
  "idle = \<lparr>cache = [], api_calls = 0, delays = 0\<rparr>"

definition some_params :: gemini_params where
  "some_params = \<lparr>p_model = ''gemini-2.0-flash-exp'', p_system = ''You are a helpful assistant.'',
                   p_prompt = JString ''hi'', p_apiKey = ''secret''\<rparr>"

text \<open>
  A regular expression engine for the examples. For a placeholder whose name is made of
  letters, and a replacement without a dollar sign, the engine replaces every occurrence
  of the literal text \<^verbatim>\<open>{{name}}\<close>.
\<close>

function replace_all :: "string \<Rightarrow> string \<Rightarrow> string \<Rightarrow> string" where
  "replace_all pat rep [] = []"
| "replace_all pat rep (c # cs) =
     (if pat \<noteq> [] \<and> prefix pat (c # cs)
      then rep @ replace_all pat rep (drop (length pat) (c # cs))
      else c # replace_all pat rep cs)"
  by pat_completeness auto
termination
  by (relation "measure (\<lambda>(pat, rep, s). length s)") auto

definition literal_regex :: regex_replace where
  "literal_regex pattern subject replacement = Inr (replace_all pattern replacement subject)"

text \<open>Nodes, requests and worlds for the examples.\<close>

definition input_node :: "string \<Rightarrow> string \<Rightarrow> node" where
  "input_node i name = \<lparr>nid = i, ntype = ''customInput'', inputName = Some name\<rparr>"

definition output_node :: "string \<Rightarrow> node" where
  "output_node i = \<lparr>nid = i, ntype = ''customOutput'', inputName = None\<rparr>"

definition config :: "string option \<Rightarrow> string \<Rightarrow> string \<Rightarrow> llm_config" where
  "config key sys usr =
     \<lparr>apiKey = key, model = Some ''gemini-2.0-flash-exp'', system = Some sys, prompt = Some usr\<rparr>"

definition topic_request :: "string option \<Rightarrow> request" where
  "topic_request key =
     \<lparr>nodes = [input_node ''in1'' ''topic'', output_node ''out1''],
      edges = None,
      inputs = Some [(''in1'', JString ''dogs'')],
      llmConfig = Some (config key ''Talk about {{topic}}'' ''Tell me about {{topic}}, please'')\<rparr>"

definition no_input_request :: request where
  "no_input_request =
     \<lparr>nodes = [output_node ''out1''],
      edges = None,
      inputs = Some [],
      llmConfig = Some (config (Some ''secret'') ''You are a helpful assistant.'' ''hi'')\<rparr>"

definition no_output_request :: request where
  "no_output_request =
     \<lparr>nodes = [input_node ''in1'' ''topic''],
      edges = None,
      inputs = Some [(''in1'', JString ''dogs'')],
      llmConfig = Some (config (Some ''secret'') ''You are a helpful assistant.'' ''hi'')\<rparr>"


definition a_world :: "string option \<Rightarrow> fetch \<Rightarrow> int \<Rightarrow> world" where
  "a_world key net t =
     \<lparr>GOOGLE_API_KEY = key, regex = literal_regex, network = net,
      now_probe = t, now_store = t + 1\<rparr>"

text \<open>
  Template resolution as the specification words it: every placeholder is substituted
  first, and only then, if the user prompt holds no \<^verbatim>\<open>{{\<close>, the latest resolved input
  value takes its place.
\<close>

definition plain_substitute ::
  "regex_replace \<Rightarrow> node list \<Rightarrow> string \<times> jsval \<Rightarrow> string \<times> string \<Rightarrow> string + (string \<times> string)" where
  "plain_substitute rx inputNodes entry prompts =
     (case entry of (nodeId, value) \<Rightarrow>
      case prompts of (systemPrompt, userPrompt) \<Rightarrow>
      case find (\<lambda>n. nid n = nodeId) inputNodes of
        None \<Rightarrow> Inr (systemPrompt, userPrompt)
      | Some inputNode \<Rightarrow>
          (let pattern = ''{{'' @ or_default (inputName inputNode) nodeId @ ''}}''
           in case rx pattern systemPrompt (to_string value) of
                Inl m \<Rightarrow> Inl m
              | Inr systemPrompt' \<Rightarrow>
                  (case rx pattern userPrompt (to_string value) of
                     Inl m \<Rightarrow> Inl m
                   | Inr userPrompt' \<Rightarrow> Inr (systemPrompt', userPrompt'))))"

fun plain_substitute_all ::
  "regex_replace \<Rightarrow> node list \<Rightarrow> (string \<times> jsval) list \<Rightarrow> string \<times> string \<Rightarrow> string + (string \<times> string)" where
  "plain_substitute_all rx inputNodes [] prompts = Inr prompts"
| "plain_substitute_all rx inputNodes (entry # entries) prompts =
     (case plain_substitute rx inputNodes entry prompts of
        Inl m \<Rightarrow> Inl m
      | Inr prompts' \<Rightarrow> plain_substitute_all rx inputNodes entries prompts')"

text \<open>The value of the last entry of \<^verbatim>\<open>inputs\<close> whose key is the id of an input node.\<close>

fun last_matched :: "node list \<Rightarrow> (string \<times> jsval) list \<Rightarrow> jsval option" where
  "last_matched inputNodes [] = None"
| "last_matched inputNodes (entry # entries) =
     (case last_matched inputNodes entries of
        Some v \<Rightarrow> Some v
      | None \<Rightarrow>
          (case find (\<lambda>n. nid n = fst entry) inputNodes of
             None \<Rightarrow> None
           | Some n \<Rightarrow> Some (snd entry)))"

definition resolve_as_specified ::
  "regex_replace \<Rightarrow> node list \<Rightarrow> (string \<times> jsval) list \<Rightarrow> string \<times> string \<Rightarrow> string + (string \<times> jsval)" where
  "resolve_as_specified rx inputNodes entries prompts =
     (case plain_substitute_all rx inputNodes entries prompts of
        Inl m \<Rightarrow> Inl m
      | Inr (systemPrompt, userPrompt) \<Rightarrow>
          (case last_matched inputNodes entries of
             None \<Rightarrow> Inr (systemPrompt, JString userPrompt)
           | Some latest \<Rightarrow>
               Inr (systemPrompt,
                    if \<not> str_includes userPrompt ''{{'' then latest else JString userPrompt)))"

text \<open>
  A value that can stand in the user prompt for the rest of the loop without being
  touched: a string that holds no \<^verbatim>\<open>{{\<close>.
\<close>

definition plain_text :: "jsval \<Rightarrow> bool" where
  "plain_text v =
     (case v of JString s \<Rightarrow> \<not> str_includes s ''{{'' | JNumber r \<Rightarrow> False | JBoolean b \<Rightarrow> False)"

text \<open>
  Every value of \<^verbatim>\<open>inputs\<close> that belongs to an input node and is followed by another
  such entry is a plain text. Nothing is asked of the last such value.
\<close>

fun earlier_values_plain :: "node list \<Rightarrow> (string \<times> jsval) list \<Rightarrow> bool" where
  "earlier_values_plain inputNodes [] = True"
| "earlier_values_plain inputNodes (entry # entries) =
     ((case find (\<lambda>n. nid n = fst entry) inputNodes of
         None \<Rightarrow> True
       | Some n \<Rightarrow>
           (case last_matched inputNodes entries of
              None \<Rightarrow> True
            | Some later \<Rightarrow> plain_text (snd entry)))
      \<and> earlier_values_plain inputNodes entries)"

text \<open>Two input nodes named \<^verbatim>\<open>x\<close> and \<^verbatim>\<open>y\<close>.\<close>

definition xy_nodes :: "node list" where
  "xy_nodes = [input_node ''in1'' ''x'', input_node ''in2'' ''y'']"

text \<open>What the handler prepares for the topic request, whichever key it carries.\<close>

definition topic_key :: string where
  "topic_key = getCacheKey \<lparr>k_model = ''gemini-2.0-flash-exp'', k_system = ''Talk about dogs'',
                            k_prompt = JString ''dogs''\<rparr>"

definition topic_prepared :: "string \<Rightarrow> prepared" where
  "topic_prepared key =
     \<lparr>outputNodes = [output_node ''out1''],
      params = \<lparr>p_model = ''gemini-2.0-flash-exp'', p_system = ''Talk about dogs'',
                 p_prompt = JString ''dogs'', p_apiKey = key\<rparr>,
      cacheKey = topic_key\<rparr>"

definition cyclic_edges :: "edge list" where
  "cyclic_edges = [\<lparr>source = ''in1'', target = ''out1''\<rparr>, \<lparr>source = ''out1'', target = ''in1''\<rparr>]"

text \<open>Graphs for the examples.\<close>

definition plain_node :: "string \<Rightarrow> node" where
  "plain_node i = \<lparr>nid = i, ntype = ''llm'', inputName = None\<rparr>"

definition self_loop :: "string \<Rightarrow> edge" where
  "self_loop i = \<lparr>source = i, target = i\<rparr>"

section \<open>Properties\<close>

subsection \<open>Termination of the depth-first search\<close>

declare decimal.simps [simp del]

lemma finite_expandable: "finite (expandable A)"
  by (simp add: expandable_def split: prototype.splits)

lemma array_index_decimal: "array_index k = Some i \<Longrightarrow> decimal i = k"
  by (simp add: array_index_def Let_def split: if_splits)

lemma neighbors_expandable:
  assumes "neighbors A k = Inr ns" "ns \<noteq> []"
  shows "k \<in> expandable A"
proof (cases "k = ''__proto__''")
  case True
  then show ?thesis by (simp add: expandable_def)
next
  case False
  show ?thesis
  proof (cases "map_of (own A) k")
    case (Some arr)
    then have "(k, arr) \<in> set (own A)" by (rule map_of_SomeD)
    then have "k \<in> fst ` set (own A)" by force
    then show ?thesis by (simp add: expandable_def)
  next
    case None
    show ?thesis
    proof (cases "proto A")
      case ObjectPrototype
      with None False assms show ?thesis
        by (simp add: neighbors_def lookup_def split: if_splits)
    next
      case (ArrayObject arr)
      show ?thesis
      proof (cases "array_index k")
        case no_index: None
        with None False assms ArrayObject show ?thesis
          by (simp add: neighbors_def lookup_def split: if_splits)
      next
        case (Some i)
        with None False assms ArrayObject have "i < length arr"
          by (simp add: neighbors_def lookup_def split: if_splits)
        moreover have "decimal i = k" using Some by (rule array_index_decimal)
        ultimately have "k \<in> decimal ` {0..<length arr}" by force
        then show ?thesis using ArrayObject by (simp add: expandable_def)
      qed
    qed
  qed
qed

text \<open>Where the search is defined, it only ever adds to the visited set.\<close>

lemma dfs_visited_mono:
  "hasCycle_for_neighbors_dom (Inl (A, n, st)) \<Longrightarrow> fst st \<subseteq> fst (snd (hasCycle A n st))"
  "hasCycle_for_neighbors_dom (Inr (A, ns, st)) \<Longrightarrow> fst st \<subseteq> fst (snd (for_neighbors A ns st))"
proof (induct rule: hasCycle_for_neighbors.pinduct)
  case (1 A nodeId st)
  obtain visited recStack where st: "st = (visited, recStack)" by (cases st)
  from 1(1) have dom: "hasCycle_for_neighbors_dom (Inl (A, nodeId, (visited, recStack)))"
    by (simp add: st)
  note ps = hasCycle.psimps[OF dom]
  show ?case
  proof (cases "nodeId \<in> recStack \<or> nodeId \<in> visited")
    case True
    then show ?thesis using st by (auto simp: ps)
  next
    case False
    show ?thesis
    proof (cases "neighbors A nodeId")
      case (Inl m)
      then show ?thesis using st False by (auto simp: ps)
    next
      case (Inr ns)
      have ih: "insert nodeId visited
                  \<subseteq> fst (snd (for_neighbors A ns (insert nodeId visited, insert nodeId recStack)))"
        using 1(2)[OF st[symmetric] _ _ Inr] False by simp
      obtain r v' r' where
        res: "for_neighbors A ns (insert nodeId visited, insert nodeId recStack) = (r, v', r')"
        by (metis prod_cases3)
      from ih res have "visited \<subseteq> v'" by auto
      then show ?thesis using st False Inr res
        by (auto simp: ps split: sum.splits bool.splits)
    qed
  qed
next
  case (2 A st)
  then show ?case by (simp add: for_neighbors.psimps)
next
  case (3 A neighbor rest st)
  obtain r st' where res: "hasCycle A neighbor st = (r, st')"
    by (cases "hasCycle A neighbor st")
  have a: "fst st \<subseteq> fst st'" using 3(2) res by simp
  show ?case
  proof (cases "r = Inr False")
    case True
    then have "fst st' \<subseteq> fst (snd (for_neighbors A rest st'))"
      using 3(3)[OF res[symmetric], of False] by simp
    then show ?thesis using a res True by (auto simp: for_neighbors.psimps(2)[OF 3(1)])
  next
    case False
    then show ?thesis using a res
      by (auto simp: for_neighbors.psimps(2)[OF 3(1)] split: sum.splits bool.splits)
  qed
qed

termination hasCycle
proof (relation "inv_image (less_than <*lex*> less_than)
         (\<lambda>x. case x of
                Inl (A, n, st) \<Rightarrow> (card (expandable A - fst st), 1)
              | Inr (A, ns, st) \<Rightarrow> (card (expandable A - fst st), 2 * length ns))", goal_cases)
  case 1
  show ?case by (intro wf_inv_image wf_lex_prod wf_less_than)
next
  case (2 A nodeId st x y b)
  have fin: "finite (expandable A - x)" using finite_expandable by simp
  have le: "card (expandable A - insert nodeId x) \<le> card (expandable A - x)"
    by (rule card_mono[OF fin]) auto
  show ?case
  proof (cases "b = []")
    case True
    then show ?thesis using 2 le by (auto simp: le_less)
  next
    case False
    then have "nodeId \<in> expandable A" using 2 neighbors_expandable by blast
    then have "card (expandable A - insert nodeId x) < card (expandable A - x)"
      using 2 fin by (intro psubset_card_mono) auto
    then show ?thesis using 2 by auto
  qed
next
  case (3 A neighbor rest st)
  then show ?case by simp
next
  case (4 A neighbor rest st x y b)
  have "fst st \<subseteq> fst (snd (hasCycle A neighbor st))"
    using 4 by (intro dfs_visited_mono(1)) auto
  then have "fst st \<subseteq> fst y" using 4 by (metis snd_conv)
  then have "card (expandable A - fst y) \<le> card (expandable A - fst st)"
    using finite_expandable by (intro card_mono) auto
  then show ?case by (auto simp: le_less)
qed

declare hasCycle.simps [simp del]

subsection \<open>The cache as an insertion-ordered map\<close>

lemma map_set_keys: "fst ` set (map_set k e c) = insert k (fst ` set c)"
proof (induction c)
  case Nil
  show ?case by simp
next
  case (Cons p c)
  show ?case
  proof (cases "fst p = k")
    case True
    then show ?thesis by (cases p) auto
  next
    case False
    then show ?thesis using Cons by (cases p) auto
  qed
qed

lemma map_set_distinct: "distinct (map fst c) \<Longrightarrow> distinct (map fst (map_set k e c))"
  by (induction c) (auto simp: map_set_keys)

lemma map_set_new: "k \<notin> fst ` set c \<Longrightarrow> map_set k e c = c @ [(k, e)]"
  by (induction c) auto

lemma map_set_length_old: "k \<in> fst ` set c \<Longrightarrow> length (map_set k e c) = length c"
  by (induction c) force+

lemma map_set_length_le: "length (map_set k e c) \<le> Suc (length c)"
  by (induction c) auto

lemma map_of_map_set: "map_of (map_set k e c) k' = (if k' = k then Some e else map_of c k')"
  by (induction c) auto

lemma map_delete_keys: "fst ` set (map_delete k c) = fst ` set c - {k}"
  by (auto simp: map_delete_def)

lemma map_delete_distinct: "distinct (map fst c) \<Longrightarrow> distinct (map fst (map_delete k c))"
  by (simp add: map_delete_def distinct_map_filter)

lemma map_delete_length: "length (map_delete k c) \<le> length c"
  by (simp add: map_delete_def)

lemma map_delete_absent: "k \<notin> fst ` set c \<Longrightarrow> map_delete k c = c"
  unfolding map_delete_def by (induction c) auto

text \<open>Deleting the first \<open>n\<close> keys one by one drops the first \<open>n\<close> entries.\<close>

lemma delete_prefix_keys:
  "distinct (map fst (xs @ ys)) \<Longrightarrow> foldl (\<lambda>m k. map_delete k m) (xs @ ys) (map fst xs) = ys"
proof (induction xs)
  case Nil
  then show ?case by simp
next
  case (Cons x xs)
  have "fst x \<notin> fst ` set (xs @ ys)" using Cons.prems by auto
  then have "map_delete (fst x) (xs @ ys) = xs @ ys"
    by (rule map_delete_absent)
  then have "map_delete (fst x) (x # xs @ ys) = xs @ ys"
    by (simp add: map_delete_def)
  with Cons show ?case by simp
qed

lemma delete_oldest_keys:
  assumes "distinct (map fst c)"
  shows "foldl (\<lambda>m k. map_delete k m) c (take n (map_keys c)) = drop n c"
proof -
  have "foldl (\<lambda>m k. map_delete k m) (take n c @ drop n c) (map fst (take n c)) = drop n c"
    by (rule delete_prefix_keys) (simp add: assms)
  then show ?thesis by (simp add: map_keys_def take_map)
qed

lemma setCache_eq:
  assumes "distinct (map fst c)"
  shows "setCache now k d c =
     (let c1 = map_set k \<lparr>data = d, timestamp = now\<rparr> c
      in if length c1 > 1000 then drop 500 c1 else c1)"
  using assms by (simp add: setCache_def Let_def delete_oldest_keys map_set_distinct)

text \<open>The invariant of the cache: keys are unique and there are at most 1000 of them.\<close>

lemma setCache_inv:
  assumes "distinct (map fst c)" "length c \<le> 1000"
  shows "distinct (map fst (setCache now k d c)) \<and> length (setCache now k d c) \<le> 1000"
proof -
  let ?c1 = "map_set k \<lparr>data = d, timestamp = now\<rparr> c"
  have d: "distinct (map fst ?c1)" using assms by (simp add: map_set_distinct)
  have "length ?c1 \<le> Suc (length c)" by (rule map_set_length_le)
  then have l: "length ?c1 \<le> 1001" using assms by simp
  have e: "setCache now k d c = (if length ?c1 > 1000 then drop 500 ?c1 else ?c1)"
    using assms by (simp add: setCache_eq Let_def)
  show ?thesis
  proof (cases "length ?c1 > 1000")
    case True
    have "distinct (map fst (drop 500 ?c1))"
      using d by (simp add: drop_map[symmetric] distinct_drop)
    then show ?thesis using True l e by simp
  next
    case False
    then show ?thesis using d e by simp
  qed
qed

lemma getFromCache_inv:
  assumes "distinct (map fst c)" "length c \<le> 1000"
  shows "distinct (map fst (snd (getFromCache now k c))) \<and> length (snd (getFromCache now k c)) \<le> 1000"
proof -
  have "distinct (map fst (map_delete k c)) \<and> length (map_delete k c) \<le> 1000"
    using assms map_delete_length[of k c] by (simp add: map_delete_distinct)
  then show ?thesis using assms by (simp add: getFromCache_def split: option.splits)
qed

lemma reachable_inv: "reachable_cache c \<Longrightarrow> distinct (map fst c) \<and> length c \<le> 1000"
proof (induction rule: reachable_cache.induct)
  case empty
  show ?case by simp
next
  case (after_set c now key d)
  then show ?case by (simp add: setCache_inv)
next
  case (after_get c now key)
  then show ?case by (simp add: getFromCache_inv)
qed

lemma map_of_drop_absent: "k \<notin> fst ` set c \<Longrightarrow> map_of (drop n c) k = None"
proof -
  assume "k \<notin> fst ` set c"
  moreover have "set (drop n c) \<subseteq> set c" by (rule set_drop_subset)
  ultimately have "k \<notin> fst ` set (drop n c)" by blast
  then show ?thesis by (simp add: map_of_eq_None_iff)
qed

text \<open>On a cache within its invariant, the entry just stored is the one found.\<close>

lemma setCache_lookup:
  assumes "distinct (map fst c)" "length c \<le> 1000"
  shows "map_get (setCache now k d c) k = Some \<lparr>data = d, timestamp = now\<rparr>"
proof (cases "k \<in> fst ` set c")
  case True
  then show ?thesis using assms
    by (simp add: setCache_eq Let_def map_set_length_old map_get_def map_of_map_set)
next
  case False
  then have "map_set k \<lparr>data = d, timestamp = now\<rparr> c = c @ [(k, \<lparr>data = d, timestamp = now\<rparr>)]"
    by (rule map_set_new)
  moreover have "map_of (drop 500 c) k = None" using False by (rule map_of_drop_absent)
  moreover have "map_of c k = None" using False by (simp add: map_of_eq_None_iff)
  ultimately show ?thesis using assms
    by (simp add: setCache_eq Let_def map_get_def map_add_def)
qed

text \<open>The filled cache is a state the server reaches, one \<^verbatim>\<open>setCache\<close> per key.\<close>

lemma filled_cache_keys: "fst ` set (filled_cache n) = (\<lambda>i. replicate i CHR ''k'') ` {0..<n}"
  by (force simp: filled_cache_def)

lemma filled_cache_distinct: "distinct (map fst (filled_cache n))"
proof -
  have "inj_on (\<lambda>i. replicate i CHR ''k'') (set [0..<n])"
    by (rule inj_onI) (metis length_replicate)
  then have "distinct (map (\<lambda>i. replicate i CHR ''k'') [0..<n])"
    by (simp add: distinct_map)
  then show ?thesis by (simp add: filled_cache_def comp_def)
qed

lemma filled_cache_length: "length (filled_cache n) = n"
  by (simp add: filled_cache_def)

lemma filled_cache_Suc:
  "filled_cache (Suc n) = filled_cache n @ [(replicate n CHR ''k'', \<lparr>data = ''v'', timestamp = 0\<rparr>)]"
  by (simp add: filled_cache_def)

lemma filled_cache_fresh: "replicate n CHR ''k'' \<notin> fst ` set (filled_cache n)"
proof
  assume "replicate n CHR ''k'' \<in> fst ` set (filled_cache n)"
  then obtain i where "i < n" "replicate i CHR ''k'' = replicate n CHR ''k''"
    by (auto simp: filled_cache_keys)
  then show False by (metis length_replicate less_irrefl)
qed

lemma filled_cache_step:
  assumes "n < 1000"
  shows "setCache 0 (replicate n CHR ''k'') ''v'' (filled_cache n) = filled_cache (Suc n)"
  using assms
  by (simp add: setCache_eq filled_cache_distinct Let_def map_set_new[OF filled_cache_fresh]
      filled_cache_length filled_cache_Suc)

lemma filled_cache_reachable: "n \<le> 1000 \<Longrightarrow> reachable_cache (filled_cache n)"
proof (induction n)
  case 0
  show ?case by (simp add: filled_cache_def reachable_cache.empty)
next
  case (Suc n)
  then have "reachable_cache (filled_cache n)" by simp
  then have "reachable_cache (setCache 0 (replicate n CHR ''k'') ''v'' (filled_cache n))"
    by (rule reachable_cache.after_set)
  then show ?case using Suc.prems by (simp add: filled_cache_step)
qed

lemma new_key_fresh: "''new'' \<notin> fst ` set (filled_cache n)"
proof
  assume "''new'' \<in> fst ` set (filled_cache n)"
  then obtain i where "''new'' = replicate i CHR ''k''" by (auto simp: filled_cache_keys)
  then have "set ''new'' \<subseteq> {CHR ''k''}" by (metis set_replicate_conv_if empty_subsetI subset_refl)
  then show False by simp
qed

subsection \<open>C3: eviction in \<^verbatim>\<open>setCache\<close>\<close>

text \<open>
  C3, as the code has it. \<^verbatim>\<open>setCache\<close> stores the entry first (in place when the key is
  present, as the newest entry otherwise) and compares the entry count with 1000 only
  afterwards. On every cache the server can reach: if the count after storing is at most
  1000, nothing is evicted; if it exceeds 1000, then the cache held exactly 1000 entries,
  the key is new, the 500 oldest entries are deleted and the new entry stays as the newest.
\<close>

theorem setCache_stores_then_evicts:
  assumes "reachable_cache c"
  shows "let c1 = map_set key \<lparr>data = d, timestamp = now\<rparr> c in
           (length c1 \<le> 1000 \<longrightarrow> setCache now key d c = c1) \<and>
           (length c1 > 1000 \<longrightarrow>
              length c = 1000 \<and> key \<notin> fst ` set c \<and>
              setCache now key d c = drop 500 c @ [(key, \<lparr>data = d, timestamp = now\<rparr>)])"
proof -
  let ?e = "\<lparr>data = d, timestamp = now\<rparr>"
  let ?c1 = "map_set key ?e c"
  have inv: "distinct (map fst c)" "length c \<le> 1000"
    using reachable_inv[OF assms] by simp_all
  have eq: "setCache now key d c = (if length ?c1 > 1000 then drop 500 ?c1 else ?c1)"
    using inv by (simp add: setCache_eq Let_def)
  have big: "length c = 1000 \<and> key \<notin> fst ` set c \<and>
             setCache now key d c = drop 500 c @ [(key, ?e)]" if over: "length ?c1 > 1000"
  proof -
    have new: "key \<notin> fst ` set c"
    proof
      assume "key \<in> fst ` set c"
      then have "length ?c1 = length c" by (rule map_set_length_old)
      with over inv show False by simp
    qed
    then have c1: "?c1 = c @ [(key, ?e)]" by (rule map_set_new)
    with over inv have len: "length c = 1000" by simp
    show ?thesis using new len eq over c1 by simp
  qed
  show ?thesis using eq big by (auto simp: Let_def)
qed

text \<open>
  Both cases at concrete caches: the full cache of 1000 entries, where the 500 oldest go,
  and the empty cache, where nothing does.
\<close>

theorem setCache_stores_then_evicts_witness:
  "reachable_cache (filled_cache 1000) \<and>
   setCache 5 ''new'' ''x'' (filled_cache 1000)
     = drop 500 (filled_cache 1000) @ [(''new'', \<lparr>data = ''x'', timestamp = 5\<rparr>)] \<and>
   setCache 5 ''new'' ''x'' [] = [(''new'', \<lparr>data = ''x'', timestamp = 5\<rparr>)]"
proof -
  have r: "reachable_cache (filled_cache 1000)" by (rule filled_cache_reachable) simp
  have l: "length (map_set ''new'' \<lparr>data = ''x'', timestamp = 5\<rparr> (filled_cache 1000)) = 1001"
    by (simp add: map_set_new[OF new_key_fresh] filled_cache_length)
  show ?thesis
    using setCache_stores_then_evicts[OF r, of "''new''" "''x''" 5]
      setCache_stores_then_evicts[OF reachable_cache.empty, of "''new''" "''x''" 5] r l
    by (simp add: Let_def)
qed

text \<open>
  C3 as stated fails on a cache holding exactly 1000 entries, a count "at or below 1000":
  storing a new key there evicts 500 entries and leaves 501, where evicting before the
  insertion, as the claim has it, evicts nothing and leaves 1001.
\<close>

theorem setCache_counterexample:
  "length (filled_cache 1000) = 1000 \<and>
   length (setCache 5 ''new'' ''x'' (filled_cache 1000)) = 501 \<and>
   length (setCache_as_specified 5 ''new'' ''x'' (filled_cache 1000)) = 1001"
proof -
  have "setCache 5 ''new'' ''x'' (filled_cache 1000)
          = drop 500 (filled_cache 1000 @ [(''new'', \<lparr>data = ''x'', timestamp = 5\<rparr>)])"
    by (simp add: setCache_eq filled_cache_distinct Let_def map_set_new[OF new_key_fresh]
        filled_cache_length)
  then show ?thesis
    by (simp add: setCache_as_specified_def map_set_new[OF new_key_fresh] filled_cache_length)
qed

subsection \<open>C6: the cache round trip\<close>

text \<open>
  C6. On every cache the server can reach, for every key \<open>k\<close> and value \<open>v\<close>: a
  \<^verbatim>\<open>getFromCache(k)\<close> that follows \<^verbatim>\<open>setCache(k, v)\<close> before the TTL of five minutes
  has elapsed (in particular immediately) returns \<open>v\<close> and leaves the cache as it is; once
  the TTL has elapsed it returns \<^verbatim>\<open>null\<close> and the key is no longer among the keys of
  the map.
\<close>

theorem cache_round_trip:
  assumes "reachable_cache c"
  shows "(now' - now < CACHE_TTL \<longrightarrow>
            getFromCache now' k (setCache now k v c) = (Some v, setCache now k v c)) \<and>
         (CACHE_TTL \<le> now' - now \<longrightarrow>
            fst (getFromCache now' k (setCache now k v c)) = None \<and>
            k \<notin> set (map_keys (snd (getFromCache now' k (setCache now k v c)))))"
proof -
  have inv: "distinct (map fst c)" "length c \<le> 1000"
    using reachable_inv[OF assms] by simp_all
  have "map_get (setCache now k v c) k = Some \<lparr>data = v, timestamp = now\<rparr>"
    using inv by (rule setCache_lookup)
  then show ?thesis
    by (auto simp: getFromCache_def map_keys_def map_delete_keys)
qed

text \<open>The round trip on the empty cache, read at once and read after exactly the TTL.\<close>

theorem cache_round_trip_witness:
  "reachable_cache [] \<and>
   getFromCache 7 ''k'' (setCache 7 ''k'' ''v'' []) = (Some ''v'', setCache 7 ''k'' ''v'' []) \<and>
   getFromCache (7 + CACHE_TTL) ''k'' (setCache 7 ''k'' ''v'' []) = (None, [])"
  using cache_round_trip[OF reachable_cache.empty, of 7 7 "''k''" "''v''"]
    cache_round_trip[OF reachable_cache.empty, of "7 + CACHE_TTL" 7 "''k''" "''v''"]
  by (simp add: reachable_cache.empty CACHE_TTL_def getFromCache_def setCache_def map_get_def
      map_delete_def Let_def)

subsection \<open>C4: the retry policy of \<^verbatim>\<open>callGeminiAPI\<close>\<close>

declare callGeminiAPI.simps [simp del]

lemma call_retry:
  assumes "fetch (api_calls s) (API_URL p) (request_text p) = Response r"
    and "status r = 429 \<or> status r \<ge> 500"
  shows "callGeminiAPI fetch p (Suc n) s
           = callGeminiAPI fetch p n (s\<lparr>api_calls := Suc (api_calls s), delays := Suc (delays s)\<rparr>)"
  using assms by (subst callGeminiAPI.simps) (auto simp: Let_def ok_def)

lemma call_no_retry:
  assumes "fetch (api_calls s) (API_URL p) (request_text p) = Response r"
    and "\<not> ok r" and "n = 0 \<or> (status r \<noteq> 429 \<and> status r < 500)"
  shows "callGeminiAPI fetch p n s
           = (Inl (''Gemini API error: ''
                   @ or_default (case json_failure r of None \<Rightarrow> error_message r | Some f \<Rightarrow> None)
                       (statusText r)),
              s\<lparr>api_calls := Suc (api_calls s)\<rparr>)"
  using assms by (subst callGeminiAPI.simps) (auto simp: Let_def)

lemma call_success:
  assumes "fetch (api_calls s) (API_URL p) (request_text p) = Response r"
    and "ok r" and "json_failure r = None" and "candidate_text r = Some t"
  shows "callGeminiAPI fetch p n s = (Inr t, s\<lparr>api_calls := Suc (api_calls s)\<rparr>)"
  using assms by (subst callGeminiAPI.simps) (auto simp: Let_def)

text \<open>
  Whatever the network answers, a call with \<open>n\<close> retries sends between one and \<open>n + 1\<close>
  requests, waits at most \<open>n\<close> times and leaves the cache alone.
\<close>

lemma call_bounds:
  "api_calls (snd (callGeminiAPI fetch p n s)) \<le> api_calls s + Suc n \<and>
   api_calls s < api_calls (snd (callGeminiAPI fetch p n s)) \<and>
   delays (snd (callGeminiAPI fetch p n s)) \<le> delays s + n \<and>
   delays s \<le> delays (snd (callGeminiAPI fetch p n s)) \<and>
   cache (snd (callGeminiAPI fetch p n s)) = cache s"
proof (induction n arbitrary: s)
  case 0
  show ?case
    by (subst (1 2 3 4 5) callGeminiAPI.simps)
      (auto simp: Let_def split: fetch_result.splits option.splits)
next
  case (Suc n)
  show ?case
  proof (cases "\<exists>r. fetch (api_calls s) (API_URL p) (request_text p) = Response r
                  \<and> \<not> ok r \<and> (status r = 429 \<or> status r \<ge> 500)")
    case True
    then obtain r where r: "fetch (api_calls s) (API_URL p) (request_text p) = Response r"
      "status r = 429 \<or> status r \<ge> 500" by blast
    show ?thesis
      using Suc.IH[of "s\<lparr>api_calls := Suc (api_calls s), delays := Suc (delays s)\<rparr>"]
      by (simp add: call_retry[where fetch=fetch and s=s and p=p and r=r, OF r])
  next
    case False
    then show ?thesis
      by (subst (1 2 3 4 5) callGeminiAPI.simps)
        (auto simp: Let_def ok_def split: fetch_result.splits option.splits)
  qed
qed

text \<open>
  C4. For every network, parameters and server state: (1) a response with status 429 or
  at least 500, met while retries remain, makes \<^verbatim>\<open>callGeminiAPI\<close> wait once (the
  one-second delay) and call itself with one retry less; (2) entered with its default of
  two retries, two such responses followed by a successful one yield the successful text
  after exactly three requests and two delays; (3) any other response that is not a
  success fails at once, with the one request sent and no delay, whatever the number
  of retries; (4) with two retries no call sends more than three requests or waits more
  than twice.
\<close>

theorem callGeminiAPI_retry_policy:
  "(fetch (api_calls s) (API_URL p) (request_text p) = Response r \<and>
    (status r = 429 \<or> status r \<ge> 500) \<longrightarrow>
      callGeminiAPI fetch p (Suc n) s
        = callGeminiAPI fetch p n (s\<lparr>api_calls := api_calls s + 1, delays := delays s + 1\<rparr>)) \<and>
   (fetch (api_calls s) (API_URL p) (request_text p) = Response r0 \<and>
    (status r0 = 429 \<or> status r0 \<ge> 500) \<and>
    fetch (api_calls s + 1) (API_URL p) (request_text p) = Response r1 \<and>
    (status r1 = 429 \<or> status r1 \<ge> 500) \<and>
    fetch (api_calls s + 2) (API_URL p) (request_text p) = Response r2 \<and>
    ok r2 \<and> json_failure r2 = None \<and> candidate_text r2 = Some t \<longrightarrow>
      callGeminiAPI fetch p 2 s
        = (Inr t, s\<lparr>api_calls := api_calls s + 3, delays := delays s + 2\<rparr>)) \<and>
   (fetch (api_calls s) (API_URL p) (request_text p) = Response r \<and>
    \<not> ok r \<and> status r \<noteq> 429 \<and> status r < 500 \<longrightarrow>
      callGeminiAPI fetch p n s
        = (Inl (''Gemini API error: ''
                @ or_default (case json_failure r of None \<Rightarrow> error_message r | Some f \<Rightarrow> None)
                    (statusText r)),
           s\<lparr>api_calls := api_calls s + 1\<rparr>)) \<and>
   api_calls (snd (callGeminiAPI fetch p 2 s)) \<le> api_calls s + 3 \<and>
   delays (snd (callGeminiAPI fetch p 2 s)) \<le> delays s + 2"
proof (intro conjI impI)
  assume "fetch (api_calls s) (API_URL p) (request_text p) = Response r \<and>
    (status r = 429 \<or> status r \<ge> 500)"
  then show "callGeminiAPI fetch p (Suc n) s
          = callGeminiAPI fetch p n (s\<lparr>api_calls := api_calls s + 1, delays := delays s + 1\<rparr>)"
    using call_retry[where fetch=fetch and s=s and p=p and r=r and n=n] by simp
next
  assume a: "fetch (api_calls s) (API_URL p) (request_text p) = Response r0 \<and>
    (status r0 = 429 \<or> status r0 \<ge> 500) \<and>
    fetch (api_calls s + 1) (API_URL p) (request_text p) = Response r1 \<and>
    (status r1 = 429 \<or> status r1 \<ge> 500) \<and>
    fetch (api_calls s + 2) (API_URL p) (request_text p) = Response r2 \<and>
    ok r2 \<and> json_failure r2 = None \<and> candidate_text r2 = Some t"
  let ?s1 = "s\<lparr>api_calls := Suc (api_calls s), delays := Suc (delays s)\<rparr>"
  let ?s2 = "?s1\<lparr>api_calls := Suc (api_calls ?s1), delays := Suc (delays ?s1)\<rparr>"
  have "callGeminiAPI fetch p (Suc (Suc 0)) s = callGeminiAPI fetch p (Suc 0) ?s1"
    using a call_retry[where fetch=fetch and s=s and p=p and r=r0] by simp
  also have "\<dots> = callGeminiAPI fetch p 0 ?s2"
    using a call_retry[where fetch=fetch and s="?s1" and p=p and r=r1] by simp
  also have "\<dots> = (Inr t, ?s2\<lparr>api_calls := Suc (api_calls ?s2)\<rparr>)"
    using a call_success[where fetch=fetch and s="?s2" and p=p and r=r2] by simp
  finally show "callGeminiAPI fetch p 2 s
          = (Inr t, s\<lparr>api_calls := api_calls s + 3, delays := delays s + 2\<rparr>)"
    by (simp add: numeral_2_eq_2)
next
  assume "fetch (api_calls s) (API_URL p) (request_text p) = Response r \<and>
    \<not> ok r \<and> status r \<noteq> 429 \<and> status r < 500"
  then show "callGeminiAPI fetch p n s
          = (Inl (''Gemini API error: ''
                  @ or_default (case json_failure r of None \<Rightarrow> error_message r | Some f \<Rightarrow> None)
                      (statusText r)),
             s\<lparr>api_calls := api_calls s + 1\<rparr>)"
    using call_no_retry[where fetch=fetch and s=s and p=p and r=r and n=n] by simp
next
  show "api_calls (snd (callGeminiAPI fetch p 2 s)) \<le> api_calls s + 3"
    using call_bounds[of fetch p 2 s] by simp
next
  show "delays (snd (callGeminiAPI fetch p 2 s)) \<le> delays s + 2"
    using call_bounds[of fetch p 2 s] by simp
qed

text \<open>
  The two scenarios of the specification: 429, 429, then success; and 404.
\<close>

theorem callGeminiAPI_retry_policy_witness:
  "callGeminiAPI rate_limited_twice some_params 2 idle
     = (Inr ''hello'', \<lparr>cache = [], api_calls = 3, delays = 2\<rparr>) \<and>
   callGeminiAPI not_found some_params 2 idle
     = (Inl ''Gemini API error: Not Found'', \<lparr>cache = [], api_calls = 1, delays = 0\<rparr>)"
proof -
  have a: "callGeminiAPI rate_limited_twice some_params 2 idle
     = (Inr ''hello'', \<lparr>cache = [], api_calls = 3, delays = 2\<rparr>)"
    using callGeminiAPI_retry_policy[where fetch=rate_limited_twice and p=some_params and s=idle
        and ?r0.0="\<lparr>status = 429, statusText = ''Too Many Requests'', json_failure = None,
          error_message = None, candidate_text = None\<rparr>"
        and ?r1.0="\<lparr>status = 429, statusText = ''Too Many Requests'', json_failure = None,
          error_message = None, candidate_text = None\<rparr>"
        and ?r2.0="\<lparr>status = 200, statusText = ''OK'', json_failure = None,
          error_message = None, candidate_text = Some ''hello''\<rparr>" and t="''hello''"]
    by (simp add: rate_limited_twice_def reply_def idle_def ok_def)
  have b: "callGeminiAPI not_found some_params 2 idle
     = (Inl ''Gemini API error: Not Found'', \<lparr>cache = [], api_calls = 1, delays = 0\<rparr>)"
    using callGeminiAPI_retry_policy[where fetch=not_found and p=some_params and s=idle and n=2
        and r="\<lparr>status = 404, statusText = ''Not Found'', json_failure = None,
          error_message = None, candidate_text = None\<rparr>"]
    by (simp add: not_found_def reply_def ok_def idle_def or_default_def truthy_def)
  show ?thesis using a b by simp
qed

subsection \<open>The handler: status codes\<close>

lemma status_no_input: "status_of ''No input nodes found in workflow'' = 500"
  by (simp add: status_of_def)

lemma status_no_output: "status_of ''No output nodes found in workflow'' = 500"
  by (simp add: status_of_def)


text \<open>
  C1, as the code behaves. For every request without a node of type
  \<^verbatim>\<open>customInput\<close>, and for every request with such a node but without a node of type
  \<^verbatim>\<open>customOutput\<close>, the handler answers with a failure whose status is 500 (not 400:
  neither message contains \<^verbatim>\<open>Validation\<close>), and returns the server state as it found
  it, so the upstream client is not called and the cache is not touched.
\<close>

theorem missing_nodes_answered_500:
  "(inputNodes_of req = [] \<longrightarrow>
      run_workflow W req s = (Failure 500 ''No input nodes found in workflow'', s)) \<and>
   (inputNodes_of req \<noteq> [] \<and> outputNodes_of req = [] \<longrightarrow>
      run_workflow W req s = (Failure 500 ''No output nodes found in workflow'', s))"
  by (simp add: run_workflow_def prepare_def status_no_input status_no_output)

text \<open>A request with one output node and no input node, and one the other way round.\<close>

theorem missing_nodes_answered_500_witness:
  "run_workflow (a_world None not_found 0) no_input_request idle
     = (Failure 500 ''No input nodes found in workflow'', idle) \<and>
   run_workflow (a_world None not_found 0) no_output_request idle
     = (Failure 500 ''No output nodes found in workflow'', idle)"
  using missing_nodes_answered_500[of no_input_request "a_world None not_found 0" idle]
    missing_nodes_answered_500[of no_output_request "a_world None not_found 0" idle]
  by (simp add: inputNodes_of_def outputNodes_of_def no_input_request_def no_output_request_def
      input_node_def output_node_def)

subsection \<open>C10: the edges play no part in the execution\<close>

lemma parts_ignore_edges:
  "inputNodes_of (req\<lparr>edges := es\<rparr>) = inputNodes_of req"
  "outputNodes_of (req\<lparr>edges := es\<rparr>) = outputNodes_of req"
  "cfg (req\<lparr>edges := es\<rparr>) f = cfg req f"
  by (simp_all add: inputNodes_of_def outputNodes_of_def cfg_def)

lemma build_prompts_ignores_edges: "build_prompts W (req\<lparr>edges := es\<rparr>) = build_prompts W req"
  by (simp add: build_prompts_def parts_ignore_edges cong: option.case_cong)

lemma prepare_ignores_edges: "prepare W (req\<lparr>edges := es\<rparr>) = prepare W req"
  by (simp add: prepare_def build_prompts_ignores_edges parts_ignore_edges
      cong: option.case_cong sum.case_cong prod.case_cong if_cong)

text \<open>
  C10. For every world, server state and request, replacing the \<^verbatim>\<open>edges\<close> of the
  request by any other list of edges (or by none) changes neither the response of
  \<^verbatim>\<open>/run-workflow\<close> (success or failure, status, outputs, metadata) nor the state it
  leaves: the handler never reads the edges, and \<^verbatim>\<open>checkIfDAG\<close> is called from
  \<^verbatim>\<open>/pipelines/parse\<close> only.
\<close>

theorem run_workflow_ignores_edges:
  "run_workflow W (req\<lparr>edges := es\<rparr>) s = run_workflow W req s"
  by (simp add: run_workflow_def prepare_ignores_edges)

subsection \<open>Worked requests\<close>

lemma topic_prompts:
  "build_prompts (a_world g net t) (topic_request key) = Inr (''Talk about dogs'', JString ''dogs'')"
  by (simp add: build_prompts_def a_world_def topic_request_def config_def cfg_def or_default_def
      truthy_def inputNodes_of_def input_node_def output_node_def substitute_def literal_regex_def)

lemma topic_prepare:
  "key \<noteq> [] \<Longrightarrow> prepare (a_world g net t) (topic_request (Some key)) = Inr (topic_prepared key)"
  by (simp add: prepare_def topic_prompts)
    (simp add: a_world_def topic_request_def config_def cfg_def or_default_def or_else_def
      truthy_def inputNodes_of_def outputNodes_of_def input_node_def output_node_def Let_def
      topic_prepared_def topic_key_def)

lemma run_workflow_success:
  assumes "prepare W req = Inr p" and "generate W p s = (Inr g, s')"
  shows "run_workflow W req s
           = (Success (foldl (\<lambda>out n. set_output out (nid n) g) Map.empty (outputNodes p))
                (p_model (params p)) (length g), s')"
  using assms by (simp add: run_workflow_def)

lemma call_rate_limited_twice:
  "callGeminiAPI rate_limited_twice p 2 idle
     = (Inr ''hello'', \<lparr>cache = [], api_calls = 3, delays = 2\<rparr>)"
proof -
  let ?r = "\<lparr>status = 429, statusText = ''Too Many Requests'',
          json_failure = None, error_message = None, candidate_text = None\<rparr>"
  let ?s1 = "\<lparr>cache = [], api_calls = Suc 0, delays = Suc 0\<rparr>"
  let ?s2 = "\<lparr>cache = [], api_calls = Suc (Suc 0), delays = Suc (Suc 0)\<rparr>"
  have "callGeminiAPI rate_limited_twice p (Suc (Suc 0)) idle
          = callGeminiAPI rate_limited_twice p (Suc 0) ?s1"
    using call_retry[where fetch=rate_limited_twice and p=p and s=idle and r="?r" and n="Suc 0"]
    by (simp add: rate_limited_twice_def reply_def idle_def)
  also have "\<dots> = callGeminiAPI rate_limited_twice p 0 ?s2"
    using call_retry[where fetch=rate_limited_twice and p=p and s="?s1" and r="?r" and n=0]
    by (simp add: rate_limited_twice_def reply_def)
  also have "\<dots> = (Inr ''hello'', \<lparr>cache = [], api_calls = 3, delays = 2\<rparr>)"
    using call_success[where fetch=rate_limited_twice and p=p and s="?s2" and n=0 and t="''hello''"
        and r="\<lparr>status = 200, statusText = ''OK'',
          json_failure = None, error_message = None, candidate_text = Some ''hello''\<rparr>"]
    by (simp add: rate_limited_twice_def reply_def ok_def)
  finally show ?thesis by (simp add: numeral_2_eq_2)
qed

text \<open>
  The topic request against a network that is rate limited twice: the prompts are
  resolved, the cache is missed, the third request succeeds and its text is cached and
  sent to the output node.
\<close>

lemma topic_run:
  "run_workflow (a_world None rate_limited_twice 1000) (topic_request (Some ''secret'')) idle
     = (Success [''out1'' \<mapsto> ''hello''] ''gemini-2.0-flash-exp'' 5,
        \<lparr>cache = [(topic_key, \<lparr>data = ''hello'', timestamp = 1001\<rparr>)], api_calls = 3, delays = 2\<rparr>)"
proof -
  let ?W = "a_world None rate_limited_twice 1000"
  let ?P = "topic_prepared ''secret''"
  have p: "prepare ?W (topic_request (Some ''secret'')) = Inr ?P"
    by (rule topic_prepare) simp
  have g: "getFromCache (now_probe ?W) (cacheKey ?P) (cache idle) = (None, [])"
    by (simp add: getFromCache_def map_get_def map_delete_def idle_def)
  have cs: "call_and_store ?W ?P idle
      = (Inr ''hello'', \<lparr>cache = [(topic_key, \<lparr>data = ''hello'', timestamp = 1001\<rparr>)],
                          api_calls = 3, delays = 2\<rparr>)"
    by (simp add: call_and_store_def a_world_def call_rate_limited_twice setCache_def Let_def
        topic_prepared_def)
  have i: "idle\<lparr>cache := []\<rparr> = idle" by (simp add: idle_def)
  have gen: "generate ?W ?P idle
      = (Inr ''hello'', \<lparr>cache = [(topic_key, \<lparr>data = ''hello'', timestamp = 1001\<rparr>)],
                          api_calls = 3, delays = 2\<rparr>)"
    by (simp add: generate_def g i cs)
  show ?thesis
    using run_workflow_success[OF p gen]
    by (simp add: topic_prepared_def set_output_def output_node_def)
qed

text \<open>The same request with a cyclic edge list has the same outcome.\<close>

theorem run_workflow_ignores_edges_witness:
  "run_workflow (a_world None rate_limited_twice 1000)
     ((topic_request (Some ''secret''))\<lparr>edges := Some cyclic_edges\<rparr>) idle
     = (Success [''out1'' \<mapsto> ''hello''] ''gemini-2.0-flash-exp'' 5,
        \<lparr>cache = [(topic_key, \<lparr>data = ''hello'', timestamp = 1001\<rparr>)], api_calls = 3, delays = 2\<rparr>)"
  using run_workflow_ignores_edges[where W="a_world None rate_limited_twice 1000"
      and req="topic_request (Some ''secret'')" and es="Some cyclic_edges" and s=idle]
  by (simp add: topic_run)

subsection \<open>C8: a request without any API key\<close>




subsection \<open>C5: the cache key\<close>

lemma prepare_cacheKey:
  assumes "prepare W req = Inr p"
  shows "cacheKey p = getCacheKey \<lparr>k_model = p_model (params p), k_system = p_system (params p),
                                   k_prompt = p_prompt (params p)\<rparr>"
  using assms
  by (auto simp: prepare_def Let_def split: if_splits sum.splits prod.splits option.splits)

lemma prepare_params:
  assumes "prepare W req = Inr p"
  shows "p_model (params p) = or_default (cfg req model) ''gemini-2.0-flash-exp'' \<and>
         build_prompts W req = Inr (p_system (params p), p_prompt (params p))"
  using assms
  by (auto simp: prepare_def Let_def split: if_splits sum.splits prod.splits option.splits)

lemma parts_ignore_apiKey:
  assumes "llmConfig req = Some c"
  shows "inputNodes_of (req\<lparr>llmConfig := Some (c\<lparr>apiKey := k\<rparr>)\<rparr>) = inputNodes_of req"
    "cfg (req\<lparr>llmConfig := Some (c\<lparr>apiKey := k\<rparr>)\<rparr>) system = cfg req system"
    "cfg (req\<lparr>llmConfig := Some (c\<lparr>apiKey := k\<rparr>)\<rparr>) prompt = cfg req prompt"
    "cfg (req\<lparr>llmConfig := Some (c\<lparr>apiKey := k\<rparr>)\<rparr>) model = cfg req model"
  using assms by (simp_all add: inputNodes_of_def cfg_def)

lemma build_prompts_ignores_apiKey:
  assumes "llmConfig req = Some c"
  shows "build_prompts (W\<lparr>GOOGLE_API_KEY := g\<rparr>) (req\<lparr>llmConfig := Some (c\<lparr>apiKey := k\<rparr>)\<rparr>)
           = build_prompts W req"
  by (simp add: build_prompts_def parts_ignore_apiKey[OF assms] cong: option.case_cong)

text \<open>
  C5. The cache key the handler computes is \<^verbatim>\<open>getCacheKey\<close> of the model, the resolved
  system prompt and the resolved user prompt, and of nothing else: (1) any two requests,
  in any two worlds, that reach the cache probe with the same three values compute the
  same key, whatever their API keys and other fields; (2) giving a request another
  \<^verbatim>\<open>llmConfig.apiKey\<close>, and the process another \<^verbatim>\<open>GOOGLE_API_KEY\<close>, leaves the key
  as it was.
\<close>

theorem cache_key_excludes_apiKey:
  "(prepare W1 req1 = Inr p1 \<and> prepare W2 req2 = Inr p2 \<and>
    p_model (params p1) = p_model (params p2) \<and>
    p_system (params p1) = p_system (params p2) \<and>
    p_prompt (params p1) = p_prompt (params p2) \<longrightarrow> cacheKey p1 = cacheKey p2) \<and>
   (llmConfig req = Some c \<and> prepare W req = Inr p \<and>
    prepare (W\<lparr>GOOGLE_API_KEY := g\<rparr>) (req\<lparr>llmConfig := Some (c\<lparr>apiKey := k\<rparr>)\<rparr>) = Inr p' \<longrightarrow>
      cacheKey p' = cacheKey p)"
proof (intro conjI impI)
  assume "prepare W1 req1 = Inr p1 \<and> prepare W2 req2 = Inr p2 \<and>
    p_model (params p1) = p_model (params p2) \<and>
    p_system (params p1) = p_system (params p2) \<and>
    p_prompt (params p1) = p_prompt (params p2)"
  then show "cacheKey p1 = cacheKey p2"
    using prepare_cacheKey[of W1 req1 p1] prepare_cacheKey[of W2 req2 p2] by simp
next
  assume a: "llmConfig req = Some c \<and> prepare W req = Inr p \<and>
    prepare (W\<lparr>GOOGLE_API_KEY := g\<rparr>) (req\<lparr>llmConfig := Some (c\<lparr>apiKey := k\<rparr>)\<rparr>) = Inr p'"
  then have c: "llmConfig req = Some c" by simp
  have "p_model (params p') = p_model (params p)"
    using a prepare_params[of W req p]
      prepare_params[of "W\<lparr>GOOGLE_API_KEY := g\<rparr>" "req\<lparr>llmConfig := Some (c\<lparr>apiKey := k\<rparr>)\<rparr>" p']
    by (simp add: parts_ignore_apiKey[OF c])
  moreover have "p_system (params p') = p_system (params p) \<and> p_prompt (params p') = p_prompt (params p)"
    using a prepare_params[of W req p]
      prepare_params[of "W\<lparr>GOOGLE_API_KEY := g\<rparr>" "req\<lparr>llmConfig := Some (c\<lparr>apiKey := k\<rparr>)\<rparr>" p']
    by (simp add: build_prompts_ignores_apiKey[OF c])
  ultimately show "cacheKey p' = cacheKey p"
    using a prepare_cacheKey[of W req p]
      prepare_cacheKey[of "W\<lparr>GOOGLE_API_KEY := g\<rparr>" "req\<lparr>llmConfig := Some (c\<lparr>apiKey := k\<rparr>)\<rparr>" p']
    by simp
qed

text \<open>
  The topic request under two different keys, in processes with and without a key of
  their own: the keys sent upstream differ, the cache key is the same.
\<close>

theorem cache_key_excludes_apiKey_witness:
  "prepare (a_world None not_found 0) (topic_request (Some ''key-A'')) = Inr (topic_prepared ''key-A'') \<and>
   prepare (a_world (Some ''key-C'') not_found 9) (topic_request (Some ''key-B'')) = Inr (topic_prepared ''key-B'') \<and>
   p_apiKey (params (topic_prepared ''key-A'')) \<noteq> p_apiKey (params (topic_prepared ''key-B'')) \<and>
   cacheKey (topic_prepared ''key-A'') = cacheKey (topic_prepared ''key-B'')"
proof -
  have a: "prepare (a_world None not_found 0) (topic_request (Some ''key-A'')) = Inr (topic_prepared ''key-A'')"
    by (rule topic_prepare) simp
  have b: "prepare (a_world (Some ''key-C'') not_found 9) (topic_request (Some ''key-B'')) = Inr (topic_prepared ''key-B'')"
    by (rule topic_prepare) simp
  have "cacheKey (topic_prepared ''key-A'') = cacheKey (topic_prepared ''key-B'')"
    using cache_key_excludes_apiKey[where ?W1.0="a_world None not_found 0"
        and ?req1.0="topic_request (Some ''key-A'')" and ?p1.0="topic_prepared ''key-A''"
        and ?W2.0="a_world (Some ''key-C'') not_found 9"
        and ?req2.0="topic_request (Some ''key-B'')" and ?p2.0="topic_prepared ''key-B''"] a b
    by (simp add: topic_prepared_def)
  then show ?thesis using a b by (simp add: topic_prepared_def)
qed

subsection \<open>C2: the cache probe of the handler\<close>

lemma call_empty_then_text:
  "callGeminiAPI empty_then_text p n s
     = (Inr (if api_calls s = 0 then [] else ''second''), s\<lparr>api_calls := Suc (api_calls s)\<rparr>)"
  using call_success[where fetch=empty_then_text and p=p and s=s and n=n
      and t="if api_calls s = 0 then [] else ''second''"
      and r="\<lparr>status = 200, statusText = ''OK'', json_failure = None, error_message = None,
              candidate_text = Some (if api_calls s = 0 then [] else ''second'')\<rparr>"]
  by (simp add: empty_then_text_def reply_def ok_def)

text \<open>
  C2, at the input where the code departs from it. The upstream answers the topic request
  with the empty text. The request succeeds, and the empty text is cached. The same
  request, arriving 999 ms after the entry was stored (the TTL is 300000 ms), is not
  served from the cache: a second upstream request is sent, and the outputs are those of
  the second answer.
\<close>

theorem empty_text_is_fetched_again:
  "run_workflow (a_world None empty_then_text 1000) (topic_request (Some ''secret'')) idle
     = (Success [''out1'' \<mapsto> []] ''gemini-2.0-flash-exp'' 0,
        \<lparr>cache = [(topic_key, \<lparr>data = [], timestamp = 1001\<rparr>)], api_calls = 1, delays = 0\<rparr>) \<and>
   2000 - 1001 < CACHE_TTL \<and>
   run_workflow (a_world None empty_then_text 2000) (topic_request (Some ''secret''))
       \<lparr>cache = [(topic_key, \<lparr>data = [], timestamp = 1001\<rparr>)], api_calls = 1, delays = 0\<rparr>
     = (Success [''out1'' \<mapsto> ''second''] ''gemini-2.0-flash-exp'' 6,
        \<lparr>cache = [(topic_key, \<lparr>data = ''second'', timestamp = 2001\<rparr>)], api_calls = 2, delays = 0\<rparr>)"
proof -
  let ?P = "topic_prepared ''secret''"
  let ?s1 = "\<lparr>cache = [(topic_key, \<lparr>data = [], timestamp = 1001\<rparr>)], api_calls = 1, delays = 0\<rparr>"
  have p: "prepare (a_world None empty_then_text t) (topic_request (Some ''secret'')) = Inr ?P" for t
    by (rule topic_prepare) simp
  have g1: "generate (a_world None empty_then_text 1000) ?P idle = (Inr [], ?s1)"
    by (simp add: generate_def getFromCache_def map_get_def map_delete_def idle_def
        call_and_store_def call_empty_then_text a_world_def setCache_def Let_def topic_prepared_def)
  have g2: "generate (a_world None empty_then_text 2000) ?P ?s1
      = (Inr ''second'', \<lparr>cache = [(topic_key, \<lparr>data = ''second'', timestamp = 2001\<rparr>)],
                           api_calls = 2, delays = 0\<rparr>)"
    by (simp add: generate_def getFromCache_def map_get_def CACHE_TTL_def truthy_def
        call_and_store_def call_empty_then_text a_world_def setCache_def Let_def topic_prepared_def)
  show ?thesis
  proof (intro conjI)
    show "run_workflow (a_world None empty_then_text 1000) (topic_request (Some ''secret'')) idle
     = (Success [''out1'' \<mapsto> []] ''gemini-2.0-flash-exp'' 0, ?s1)"
      using run_workflow_success[OF p g1]
      by (simp add: topic_prepared_def set_output_def output_node_def)
    show "2000 - 1001 < CACHE_TTL" by (simp add: CACHE_TTL_def)
    show "run_workflow (a_world None empty_then_text 2000) (topic_request (Some ''secret'')) ?s1
     = (Success [''out1'' \<mapsto> ''second''] ''gemini-2.0-flash-exp'' 6,
        \<lparr>cache = [(topic_key, \<lparr>data = ''second'', timestamp = 2001\<rparr>)], api_calls = 2, delays = 0\<rparr>)"
      using run_workflow_success[OF p g2]
      by (simp add: topic_prepared_def set_output_def output_node_def)
  qed
qed

lemma prepare_ignores_clock:
  "prepare (W\<lparr>now_probe := t, now_store := t'\<rparr>) req = prepare W req"
  by (simp add: prepare_def build_prompts_def cong: option.case_cong sum.case_cong prod.case_cong if_cong)

text \<open>
  For a text that is not empty the repetition is served from the cache. If a request
  succeeds after a call of the upstream client with a non-empty text, the same request,
  probing the cache before the TTL has elapsed since the entry was stored, gets the same
  response and leaves the state as it is: no upstream request, no change of the cache.
\<close>

lemma cache_hit_repeats_outputs:
  assumes reach: "reachable_cache (cache s)"
    and first: "run_workflow W req s = (Success outs mdl n, s1)"
    and nonempty: "0 < n"
    and miss: "api_calls s < api_calls s1"
    and fresh: "t2 - now_store W < CACHE_TTL"
  shows "run_workflow (W\<lparr>now_probe := t2, now_store := t3\<rparr>) req s1 = (Success outs mdl n, s1)"
proof -
  obtain p where p: "prepare W req = Inr p"
    using first by (auto simp: run_workflow_def split: sum.splits)
  obtain g where g: "generate W p s = (Inr g, s1)" and n: "n = length g"
    and outs: "outs = foldl (\<lambda>out n. set_output out (nid n) g) Map.empty (outputNodes p)"
    and mdl: "mdl = p_model (params p)"
    using first p by (auto simp: run_workflow_def split: sum.splits prod.splits)
  let ?c0 = "snd (getFromCache (now_probe W) (cacheKey p) (cache s))"
  let ?s0 = "s\<lparr>cache := ?c0\<rparr>"
  have cs: "call_and_store W p ?s0 = (Inr g, s1)"
    using g miss by (auto simp: generate_def split: prod.splits option.splits if_splits)
  obtain s2 where s2: "callGeminiAPI (network W) (params p) 2 ?s0 = (Inr g, s2)"
    and s1: "s1 = s2\<lparr>cache := setCache (now_store W) (cacheKey p) g (cache s2)\<rparr>"
    using cs by (auto simp: call_and_store_def split: prod.splits sum.splits)
  have "cache s2 = ?c0" using call_bounds[of "network W" "params p" 2 ?s0] s2 by simp
  moreover have "distinct (map fst ?c0) \<and> length ?c0 \<le> 1000"
    using reachable_inv[OF reach] by (simp add: getFromCache_inv)
  ultimately have look: "map_get (cache s1) (cacheKey p) = Some \<lparr>data = g, timestamp = now_store W\<rparr>"
    using s1 by (simp add: setCache_lookup)
  have "g \<noteq> []" using n nonempty by simp
  then have "generate (W\<lparr>now_probe := t2, now_store := t3\<rparr>) p s1 = (Inr g, s1)"
    using look fresh by (simp add: generate_def getFromCache_def truthy_def)
  then show ?thesis
    using p n outs mdl by (simp add: run_workflow_def prepare_ignores_clock)
qed

subsection \<open>C7: the user prompt after the substitutions\<close>

lemma substitute_unmatched:
  "find (\<lambda>n. nid n = fst entry) inputNodes = None \<Longrightarrow> substitute rx inputNodes entry st = Inr st"
  by (cases entry; cases st) (simp add: substitute_def)

lemma substitute_matched:
  assumes "find (\<lambda>n. nid n = fst entry) inputNodes = Some n"
    and "substitute rx inputNodes entry st = Inr (sys', usr')"
  shows "usr' = snd entry \<or> (\<exists>u. usr' = JString u \<and> str_includes u ''{{'')"
  using assms
  by (cases entry; cases st)
    (auto simp: substitute_def Let_def split: sum.splits jsval.splits if_splits)

lemma final_prompt_general:
  assumes "substitute_all rx inputNodes entries st = Inr (sys', usr')"
  shows "case last_matched inputNodes entries of
           None \<Rightarrow> (sys', usr') = st
         | Some v \<Rightarrow> usr' = v \<or> (\<exists>u. usr' = JString u \<and> str_includes u ''{{'')"
  using assms
proof (induction entries arbitrary: st)
  case Nil
  then show ?case by simp
next
  case (Cons entry entries)
  from Cons.prems obtain st1 where st1: "substitute rx inputNodes entry st = Inr st1"
    and rest: "substitute_all rx inputNodes entries st1 = Inr (sys', usr')"
    by (auto split: sum.splits)
  note ih = Cons.IH[OF rest]
  show ?case
  proof (cases "last_matched inputNodes entries")
    case (Some v)
    with ih show ?thesis by simp
  next
    case None
    with ih have eq: "(sys', usr') = st1" by simp
    show ?thesis
    proof (cases "find (\<lambda>n. nid n = fst entry) inputNodes")
      case no: None
      then have "st1 = st" using st1 by (simp add: substitute_unmatched)
      with eq None no show ?thesis by simp
    next
      case (Some n)
      have "substitute rx inputNodes entry st = Inr (sys', usr')" using st1 eq by simp
      then have "usr' = snd entry \<or> (\<exists>u. usr' = JString u \<and> str_includes u ''{{'')"
        by (rule substitute_matched[OF Some])
      with None Some show ?thesis by simp
    qed
  qed
qed

text \<open>
  Outside the two conditions of the theorem below, the loop and the wording of the
  specification can differ. An earlier value that holds \<^verbatim>\<open>{{\<close> is the counterexample further down; an earlier
  value that is a number or a boolean takes the template's place and the next turn calls
  \<^verbatim>\<open>replace\<close> on it. What remains true of every run that completes is
  \<open>final_prompt_general\<close>.
\<close>

lemma find_node:
  "find (\<lambda>n. nid n = k) inputNodes = Some n \<Longrightarrow> n \<in> set inputNodes \<and> nid n = k"
  by (auto simp: find_Some_iff)

lemma no_matched_code:
  "last_matched inputNodes entries = None \<Longrightarrow> substitute_all rx inputNodes entries st = Inr st"
proof (induction entries)
  case Nil then show ?case by simp
next
  case (Cons e es)
  then have 1: "last_matched inputNodes es = None" and 2: "find (\<lambda>n. nid n = fst e) inputNodes = None"
    by (auto split: option.splits)
  show ?case using Cons.IH[OF 1] by (simp add: substitute_unmatched[OF 2])
qed

lemma plain_substitute_unmatched:
  "find (\<lambda>n. nid n = fst entry) inputNodes = None \<Longrightarrow> plain_substitute rx inputNodes entry st = Inr st"
  by (cases entry; cases st) (simp add: plain_substitute_def)

lemma no_matched_plain:
  "last_matched inputNodes entries = None \<Longrightarrow> plain_substitute_all rx inputNodes entries st = Inr st"
proof (induction entries)
  case Nil then show ?case by simp
next
  case (Cons e es)
  then have 1: "last_matched inputNodes es = None" and 2: "find (\<lambda>n. nid n = fst e) inputNodes = None"
    by (auto split: option.splits)
  show ?case using Cons.IH[OF 1] by (simp add: plain_substitute_unmatched[OF 2])
qed

lemma last_matched_skip:
  "find (\<lambda>n. nid n = fst e) inputNodes = None \<Longrightarrow>
     last_matched inputNodes (e # es) = last_matched inputNodes es"
  by (simp split: option.splits)

lemma replaced_prompt:
  assumes engine: "\<And>n subject replacement. n \<in> set inputNodes \<Longrightarrow> \<not> str_includes subject ''{{'' \<Longrightarrow>
                     rx (''{{'' @ or_default (inputName n) (nid n) @ ''}}'') subject replacement = Inr subject"
    and "earlier_values_plain inputNodes entries"
    and "\<not> str_includes s ''{{''" and "\<not> str_includes u ''{{''"
  shows "substitute_all rx inputNodes entries (sys, JString s) =
           (case plain_substitute_all rx inputNodes entries (sys, u) of
              Inl m \<Rightarrow> Inl m
            | Inr (sys', u') \<Rightarrow>
                Inr (sys', case last_matched inputNodes entries of None \<Rightarrow> JString s | Some l \<Rightarrow> l)) \<and>
         (\<forall>sys' u'. plain_substitute_all rx inputNodes entries (sys, u) = Inr (sys', u') \<longrightarrow> u' = u)"
  using assms(2-4)
proof (induction entries arbitrary: sys s)
  case Nil
  then show ?case by simp
next
  case (Cons e es)
  obtain k v where e: "e = (k, v)" by (cases e)
  from Cons.prems have rest: "earlier_values_plain inputNodes es" by simp
  show ?case
  proof (cases "find (\<lambda>n. nid n = k) inputNodes")
    case None
    then show ?thesis
      using Cons.IH[OF rest Cons.prems(2) Cons.prems(3), of sys] e
        last_matched_skip[of e inputNodes es]
      by (simp add: substitute_unmatched plain_substitute_unmatched del: last_matched.simps
          cong: sum.case_cong prod.case_cong)
  next
    case (Some n)
    then have n: "n \<in> set inputNodes" "nid n = k" using find_node by blast+
    let ?pat = "''{{'' @ or_default (inputName n) k @ ''}}''"
    have es: "rx ?pat s (to_string v) = Inr s" using engine[OF n(1) Cons.prems(2)] n(2) by simp
    have eu: "rx ?pat u (to_string v) = Inr u" using engine[OF n(1) Cons.prems(3)] n(2) by simp
    show ?thesis
    proof (cases "rx ?pat sys (to_string v)")
      case (Inl m)
      then show ?thesis using e Some by (simp add: substitute_def plain_substitute_def)
    next
      case (Inr sys1)
      have code: "substitute rx inputNodes e (sys, JString s) = Inr (sys1, v)"
        using e Some Inr es Cons.prems(2) by (simp add: substitute_def)
      have plain: "plain_substitute rx inputNodes e (sys, u) = Inr (sys1, u)"
        using e Some Inr eu by (simp add: plain_substitute_def)
      show ?thesis
      proof (cases "last_matched inputNodes es")
        case None
        then show ?thesis using code plain e Some
          by (simp add: no_matched_code no_matched_plain)
      next
        case (Some l)
        with Cons.prems(1) e \<open>find (\<lambda>n. nid n = k) inputNodes = Some n\<close>
        have "plain_text v" by simp
        then obtain s' where v: "v = JString s'" and s': "\<not> str_includes s' ''{{''"
          by (auto simp: plain_text_def split: jsval.splits)
        have lm: "last_matched inputNodes (e # es) = Some l" using Some by simp
        show ?thesis
          using Cons.IH[OF rest s' Cons.prems(3), of sys1] code plain Some v
          by (simp add: lm del: last_matched.simps cong: sum.case_cong prod.case_cong)
      qed
    qed
  qed
qed

lemma replace_all_plain:
  "\<not> str_includes s ''{{'' \<Longrightarrow> replace_all (''{{'' @ name @ ''}}'') rep s = s"
proof (induction s)
  case Nil
  then show ?case by simp
next
  case (Cons c cs)
  then have np: "\<not> prefix ''{{'' (c # cs)" and rest: "\<not> str_includes cs ''{{''" by simp_all
  have "\<not> prefix (''{{'' @ name @ ''}}'') (c # cs)"
    using np by (metis append_prefixD)
  then have "replace_all (''{{'' @ name @ ''}}'') rep (c # cs)
               = c # replace_all (''{{'' @ name @ ''}}'') rep cs"
    by (simp only: replace_all.simps simp_thms if_False)
  then show ?case using Cons.IH[OF rest] by (simp only:)
qed

lemma literal_regex_plain:
  "\<not> str_includes subject ''{{'' \<Longrightarrow>
     literal_regex (''{{'' @ name @ ''}}'') subject replacement = Inr subject"
  unfolding literal_regex_def by (rule arg_cong[where f=Inr]) (rule replace_all_plain)

lemma plain_values_suffice:
  "(\<And>k v. (k, v) \<in> set entries \<Longrightarrow> find (\<lambda>n. nid n = k) inputNodes \<noteq> None \<Longrightarrow> plain_text v)
     \<Longrightarrow> earlier_values_plain inputNodes entries"
proof (induction entries)
  case Nil
  then show ?case by simp
next
  case (Cons e es)
  have "earlier_values_plain inputNodes es"
  proof (rule Cons.IH)
    fix k v assume "(k, v) \<in> set es" "find (\<lambda>n. nid n = k) inputNodes \<noteq> None"
    then show "plain_text v" using Cons.prems[of k v] by simp
  qed
  moreover have "find (\<lambda>n. nid n = fst e) inputNodes \<noteq> None \<Longrightarrow> plain_text (snd e)"
    using Cons.prems[of "fst e" "snd e"] by simp
  ultimately show ?case by (auto split: option.splits)
qed

text \<open>
  C7, as the code has it. The test for remaining placeholder syntax is made inside the
  loop, once after each entry of \<^verbatim>\<open>inputs\<close> that belongs to an input node, and the
  claim holds under two conditions. Every such value other than the last is a string
  that holds no \<^verbatim>\<open>{{\<close>. And the placeholder pattern of every input node leaves a text
  that holds no \<^verbatim>\<open>{{\<close> as it is, as the pattern of a name made of letters does. Then
  the loop returns what the specification words: it throws where substituting every
  placeholder throws; otherwise the system prompt is the substituted one and, with the
  user-prompt template after all substitutions, the final user prompt is the latest
  resolved input value if the substituted template holds no \<^verbatim>\<open>{{\<close>, and the
  substituted template if it holds one (or if no entry belongs to an input node).
\<close>

theorem final_user_prompt:
  assumes engine: "\<And>n subject replacement. n \<in> set inputNodes \<Longrightarrow> \<not> str_includes subject ''{{'' \<Longrightarrow>
             rx (''{{'' @ or_default (inputName n) (nid n) @ ''}}'') subject replacement = Inr subject"
    and "earlier_values_plain inputNodes entries"
  shows "substitute_all rx inputNodes entries (sys, JString template) =
           resolve_as_specified rx inputNodes entries (sys, template)"
  using assms(2)
proof (induction entries arbitrary: sys template)
  case Nil
  then show ?case by (simp add: resolve_as_specified_def)
next
  case (Cons e es)
  obtain k v where e: "e = (k, v)" by (cases e)
  from Cons.prems have rest: "earlier_values_plain inputNodes es" by simp
  show ?case
  proof (cases "find (\<lambda>n. nid n = k) inputNodes")
    case None
    then show ?thesis
      using Cons.IH[OF rest, of sys template] e last_matched_skip[of e inputNodes es]
      by (simp add: resolve_as_specified_def substitute_unmatched plain_substitute_unmatched
          del: last_matched.simps cong: sum.case_cong prod.case_cong)
  next
    case (Some n)
    let ?pat = "''{{'' @ or_default (inputName n) k @ ''}}''"
    show ?thesis
    proof (cases "rx ?pat sys (to_string v)")
      case (Inl m)
      then show ?thesis using e Some
        by (simp add: substitute_def plain_substitute_def resolve_as_specified_def)
    next
      case sys1: (Inr sys1)
      show ?thesis
      proof (cases "rx ?pat template (to_string v)")
        case (Inl m)
        then show ?thesis using e Some sys1
          by (simp add: substitute_def plain_substitute_def resolve_as_specified_def)
      next
        case u1: (Inr u1)
        have plain: "plain_substitute rx inputNodes e (sys, template) = Inr (sys1, u1)"
          using e Some sys1 u1 by (simp add: plain_substitute_def)
        have code: "substitute rx inputNodes e (sys, JString template) =
                      Inr (sys1, if \<not> str_includes u1 ''{{'' then v else JString u1)"
          using e Some sys1 u1 by (simp add: substitute_def)
        show ?thesis
        proof (cases "last_matched inputNodes es")
          case None
          then show ?thesis using code plain e Some
            by (simp add: resolve_as_specified_def no_matched_code no_matched_plain)
        next
          case l: (Some l)
          show ?thesis
          proof (cases "str_includes u1 ''{{''")
            case True
            have lm: "last_matched inputNodes (e # es) = Some l" using l by simp
            from True show ?thesis
              using Cons.IH[OF rest, of sys1 u1] code plain l
              by (simp add: resolve_as_specified_def lm del: last_matched.simps
                  cong: sum.case_cong prod.case_cong)
          next
            case False
            from l Cons.prems e Some have "plain_text v" by simp
            then obtain s' where v: "v = JString s'" and s': "\<not> str_includes s' ''{{''"
              by (auto simp: plain_text_def split: jsval.splits)
            note r = replaced_prompt[where rx=rx and inputNodes=inputNodes and entries=es
                and s=s' and u=u1 and sys=sys1, OF engine rest s' False]
            have lm: "last_matched inputNodes (e # es) = Some l" using l by simp
            show ?thesis
              using r code plain l False v
              by (auto simp: resolve_as_specified_def lm simp del: last_matched.simps
                  split: sum.splits)
          qed
        qed
      qed
    qed
  qed
qed

lemma find_xy:
  "find (\<lambda>n. nid n = ''in1'') xy_nodes = Some (input_node ''in1'' ''x'')"
  "find (\<lambda>n. nid n = ''in2'') xy_nodes = Some (input_node ''in2'' ''y'')"
  by (simp_all add: xy_nodes_def input_node_def)

text \<open>
  With the template \<^verbatim>\<open>{{x}} and {{y}}\<close> and the literal engine: the entries for
  \<^verbatim>\<open>x\<close> and \<^verbatim>\<open>y\<close> leave no placeholder, and the final prompt is the value of
  the last entry (here a number); the entry for \<^verbatim>\<open>x\<close> alone leaves
  \<^verbatim>\<open>a and {{y}}\<close>, which is kept.
\<close>

theorem final_user_prompt_witness:
  "earlier_values_plain xy_nodes [(''in1'', JString ''a''), (''in2'', JNumber ''7'')] \<and>
   substitute_all literal_regex xy_nodes [(''in1'', JString ''a''), (''in2'', JNumber ''7'')]
       (''sys {{x}}'', JString ''{{x}} and {{y}}'')
     = resolve_as_specified literal_regex xy_nodes [(''in1'', JString ''a''), (''in2'', JNumber ''7'')]
         (''sys {{x}}'', ''{{x}} and {{y}}'') \<and>
   resolve_as_specified literal_regex xy_nodes [(''in1'', JString ''a''), (''in2'', JNumber ''7'')]
       (''sys {{x}}'', ''{{x}} and {{y}}'')
     = Inr (''sys a'', JNumber ''7'') \<and>
   earlier_values_plain xy_nodes [(''in1'', JString ''a'')] \<and>
   substitute_all literal_regex xy_nodes [(''in1'', JString ''a'')]
       (''sys {{x}}'', JString ''{{x}} and {{y}}'')
     = resolve_as_specified literal_regex xy_nodes [(''in1'', JString ''a'')]
         (''sys {{x}}'', ''{{x}} and {{y}}'') \<and>
   resolve_as_specified literal_regex xy_nodes [(''in1'', JString ''a'')]
       (''sys {{x}}'', ''{{x}} and {{y}}'')
     = Inr (''sys a'', JString ''a and {{y}}'')"
proof -
  have engine: "\<And>n subject replacement. n \<in> set xy_nodes \<Longrightarrow> \<not> str_includes subject ''{{'' \<Longrightarrow>
      literal_regex (''{{'' @ or_default (inputName n) (nid n) @ ''}}'') subject replacement = Inr subject"
    by (rule literal_regex_plain)
  have two: "earlier_values_plain xy_nodes [(''in1'', JString ''a''), (''in2'', JNumber ''7'')]"
    by (simp add: find_xy plain_text_def)
  have one: "earlier_values_plain xy_nodes [(''in1'', JString ''a'')]"
    by (simp add: find_xy)
  have r2: "resolve_as_specified literal_regex xy_nodes [(''in1'', JString ''a''), (''in2'', JNumber ''7'')]
       (''sys {{x}}'', ''{{x}} and {{y}}'') = Inr (''sys a'', JNumber ''7'')"
    by (simp add: resolve_as_specified_def plain_substitute_def find_xy literal_regex_def
        input_node_def or_default_def truthy_def)
  have r1: "resolve_as_specified literal_regex xy_nodes [(''in1'', JString ''a'')]
       (''sys {{x}}'', ''{{x}} and {{y}}'') = Inr (''sys a'', JString ''a and {{y}}'')"
    by (simp add: resolve_as_specified_def plain_substitute_def find_xy literal_regex_def
        input_node_def or_default_def truthy_def)
  show ?thesis
    using final_user_prompt[where rx=literal_regex and inputNodes=xy_nodes, OF engine two]
      final_user_prompt[where rx=literal_regex and inputNodes=xy_nodes, OF engine one]
      two one r2 r1
    by simp
qed

text \<open>
  C7 as stated fails. The template \<^verbatim>\<open>hello\<close> has no placeholder, before or after the
  substitutions, and the latest input value is \<^verbatim>\<open>b\<close>; yet the final user prompt is the
  first value \<^verbatim>\<open>{{q}}\<close>, which took the template's place in the first turn and was kept
  in the second because it holds \<^verbatim>\<open>{{\<close>. It is neither the latest value nor the
  substituted template.
\<close>

theorem final_user_prompt_counterexample:
  "substitute_all literal_regex xy_nodes [(''in1'', JString ''{{q}}''), (''in2'', JString ''b'')]
       (''sys'', JString ''hello'')
     = Inr (''sys'', JString ''{{q}}'') \<and>
   plain_substitute_all literal_regex xy_nodes [(''in1'', JString ''{{q}}''), (''in2'', JString ''b'')]
       (''sys'', ''hello'')
     = Inr (''sys'', ''hello'') \<and>
   resolve_as_specified literal_regex xy_nodes [(''in1'', JString ''{{q}}''), (''in2'', JString ''b'')]
       (''sys'', ''hello'')
     = Inr (''sys'', JString ''b'')"
  by (simp add: substitute_def plain_substitute_def resolve_as_specified_def find_xy
      literal_regex_def input_node_def or_default_def truthy_def)

text \<open>
  A number as an earlier value: it takes the place of the template, and the next turn
  throws.
\<close>

lemma number_then_replace_throws:
  "substitute_all literal_regex xy_nodes [(''in1'', JNumber ''5''), (''in2'', JString ''b'')]
       (''sys'', JString ''hello'')
     = Inl ''userPrompt.replace is not a function'' \<and>
   resolve_as_specified literal_regex xy_nodes [(''in1'', JNumber ''5''), (''in2'', JString ''b'')]
       (''sys'', ''hello'')
     = Inr (''sys'', JString ''b'')"
  by (simp add: substitute_def plain_substitute_def resolve_as_specified_def find_xy
      literal_regex_def input_node_def or_default_def truthy_def)

subsection \<open>C9: \<^verbatim>\<open>checkIfDAG\<close>\<close>

text \<open>
  C9, at the input where the code departs from it. The graph has the one node
  \<^verbatim>\<open>__proto__\<close> and the one edge from this node to itself. The assignment
  \<^verbatim>\<open>adj['__proto__'] = []\<close> replaces the prototype of \<^verbatim>\<open>adj\<close> and creates no key, the
  edge is pushed onto the prototype, \<^verbatim>\<open>Object.keys(adj)\<close> is empty and the search never
  starts: the function returns \<^verbatim>\<open>true\<close> for a graph with a self-loop on a node of its
  node list.
\<close>

theorem self_loop_on_proto_passes:
  "checkIfDAG [plain_node ''__proto__''] [self_loop ''__proto__''] = Inr True"
  by (simp add: checkIfDAG_def build_adj_def add_node_def add_edge_def lookup_def plain_node_def
      self_loop_def Object_keys_def)

text \<open>Through \<^verbatim>\<open>/pipelines/parse\<close> the same graph is reported as a DAG.\<close>

lemma parse_reports_self_loop_as_dag:
  "pipelines_parse \<lparr>pipeline_nodes = Some [plain_node ''__proto__''],
                     pipeline_edges = Some [self_loop ''__proto__'']\<rparr>
     = Parsed 1 1 True"
  by (simp add: pipelines_parse_def checkIfDAG_def build_adj_def add_node_def add_edge_def
      lookup_def plain_node_def self_loop_def Object_keys_def)

text \<open>On a node with an ordinary id the self-loop is found.\<close>

lemma self_loop_detected_example:
  "checkIfDAG [plain_node ''a''] [self_loop ''a''] = Inr False"
  by (simp add: checkIfDAG_def build_adj_def add_node_def add_edge_def lookup_def plain_node_def
      self_loop_def Object_keys_def is_index_key_def array_index_def parse_nat_def decimal.simps
      hasCycle.simps neighbors_def)

text \<open>The second half of the claim holds for every node list: without edges the answer is \<^verbatim>\<open>true\<close>.\<close>

lemma put_member: "p \<in> set (put k v ps) \<Longrightarrow> p = (k, v) \<or> p \<in> set ps"
  by (induction ps) (auto split: if_splits)

lemma add_node_bare: "bare A \<Longrightarrow> bare (add_node A n)"
  by (auto simp: bare_def add_node_def dest!: put_member)

lemma add_nodes_bare: "bare A \<Longrightarrow> bare (foldl add_node A ns)"
  by (induction ns arbitrary: A) (simp_all add: add_node_bare)

lemma bare_neighbors:
  assumes "bare A" "k \<in> fst ` set (own A)"
  shows "neighbors A k = Inr []"
proof -
  from assms(2) have "map_of (own A) k \<noteq> None" by (simp add: map_of_eq_None_iff)
  then obtain v where v: "map_of (own A) k = Some v" by blast
  then have m: "(k, v) \<in> set (own A)" by (rule map_of_SomeD)
  then have "v = []" "k \<noteq> ''__proto__''" using assms(1) by (auto simp: bare_def)
  then show ?thesis using v by (simp add: neighbors_def lookup_def)
qed

lemma bare_hasCycle:
  assumes "bare A" "k \<in> fst ` set (own A)"
  shows "hasCycle A k (V, {}) = (Inr False, (insert k V, {}))"
  using bare_neighbors[OF assms]
  by (subst hasCycle.simps) (auto simp: insert_absorb)

lemma bare_check_from:
  assumes "bare A" "set ks \<subseteq> fst ` set (own A)"
  shows "check_from A ks (V, {}) = Inr True"
  using assms(2)
proof (induction ks arbitrary: V)
  case Nil
  show ?case by simp
next
  case (Cons k ks)
  then show ?case by (simp add: bare_hasCycle[OF assms(1)])
qed

lemma Object_keys_subset: "set (Object_keys A) \<subseteq> fst ` set (own A)"
  by (auto simp: Object_keys_def)

lemma checkIfDAG_no_edges: "checkIfDAG ns [] = Inr True"
proof -
  have "bare \<lparr>own = [], proto = ObjectPrototype\<rparr>" by (simp add: bare_def)
  then have "bare (foldl add_node \<lparr>own = [], proto = ObjectPrototype\<rparr> ns)"
    by (rule add_nodes_bare)
  then show ?thesis
    by (simp add: checkIfDAG_def build_adj_def bare_check_from Object_keys_subset)
qed

text \<open>
  The first half of the claim holds on every graph of ordinary ids: a self-loop on a listed node
  makes \<^verbatim>\<open>checkIfDAG\<close> return \<^verbatim>\<open>false\<close>. The search never throws there, and a call
  that reports no cycle has visited only nodes without an edge to themselves.
\<close>

lemma map_of_put: "map_of (put k v ps) k' = (if k' = k then Some v else map_of ps k')"
  by (induction ps) auto

lemma put_keys: "fst ` set (put k v ps) = insert k (fst ` set ps)"
proof (induction ps)
  case Nil
  show ?case by simp
next
  case (Cons p ps)
  show ?case
  proof (cases "fst p = k")
    case True
    then show ?thesis by (cases p) auto
  next
    case False
    then show ?thesis using Cons by (cases p) auto
  qed
qed

lemma add_node_good:
  assumes "good A" "ordinary (nid n)"
  shows "good (add_node A n) \<and> fst ` set (own (add_node A n)) = insert (nid n) (fst ` set (own A))"
  using assms
  by (auto simp: good_def add_node_def ordinary_def put_keys dest!: put_member)

lemma add_nodes_good:
  assumes "good A" "\<forall>n \<in> set ns. ordinary (nid n)"
  shows "good (foldl add_node A ns) \<and>
         fst ` set (own (foldl add_node A ns)) = nid ` set ns \<union> fst ` set (own A)"
  using assms
proof (induction ns arbitrary: A)
  case Nil
  then show ?case by simp
next
  case (Cons n ns)
  then have g: "good (add_node A n)"
    and k: "fst ` set (own (add_node A n)) = insert (nid n) (fst ` set (own A))"
    using add_node_good[of A n] by simp_all
  show ?case using Cons.IH[OF g] Cons.prems k by auto
qed

lemma good_lookup:
  assumes "good A" "ordinary k"
  shows "lookup A k = (case map_of (own A) k of None \<Rightarrow> Undefined | Some arr \<Rightarrow> OwnArray arr)"
  using assms by (auto simp: lookup_def good_def ordinary_def split: option.splits)

lemma add_edge_good:
  assumes "good A" "ordinary (source e)" "ordinary (target e)"
  shows "\<exists>A'. add_edge A e = Inr A' \<and> good A' \<and> fst ` set (own A') = fst ` set (own A) \<and>
           (\<forall>s t. has_edge A s t \<longrightarrow> has_edge A' s t) \<and>
           (source e \<in> fst ` set (own A) \<longrightarrow> has_edge A' (source e) (target e))"
proof (cases "map_of (own A) (source e)")
  case None
  then have "source e \<notin> fst ` set (own A)" by (simp add: map_of_eq_None_iff)
  then show ?thesis using assms None by (simp add: add_edge_def good_lookup)
next
  case (Some arr)
  let ?A' = "A\<lparr>own := put (source e) (arr @ [target e]) (own A)\<rparr>"
  have e: "add_edge A e = Inr ?A'" using assms Some by (simp add: add_edge_def good_lookup)
  have m: "(source e, arr) \<in> set (own A)" using Some by (rule map_of_SomeD)
  have g: "good ?A'"
    using assms m by (auto simp: good_def dest!: put_member)
  have k: "fst ` set (own ?A') = fst ` set (own A)"
    using m by (force simp: put_keys)
  have h: "has_edge ?A' s t" if "has_edge A s t" for s t
    using that Some by (auto simp: has_edge_def map_of_put split: option.splits)
  have n: "has_edge ?A' (source e) (target e)"
    by (simp add: has_edge_def map_of_put)
  show ?thesis using e g k h n by blast
qed

lemma add_edges_good:
  assumes "good A" "\<forall>e \<in> set es. ordinary (source e) \<and> ordinary (target e)"
  shows "\<exists>A'. add_edges A es = Inr A' \<and> good A' \<and> fst ` set (own A') = fst ` set (own A) \<and>
           (\<forall>s t. has_edge A s t \<longrightarrow> has_edge A' s t) \<and>
           (\<forall>e \<in> set es. source e \<in> fst ` set (own A) \<longrightarrow> has_edge A' (source e) (target e))"
  using assms
proof (induction es arbitrary: A)
  case Nil
  then show ?case by simp
next
  case (Cons e es)
  then obtain A1 where A1: "add_edge A e = Inr A1" "good A1"
      "fst ` set (own A1) = fst ` set (own A)"
      "\<forall>s t. has_edge A s t \<longrightarrow> has_edge A1 s t"
      "source e \<in> fst ` set (own A) \<longrightarrow> has_edge A1 (source e) (target e)"
    using add_edge_good[of A e] by auto
  from Cons.IH[OF A1(2)] Cons.prems obtain A' where A': "add_edges A1 es = Inr A'" "good A'"
      "fst ` set (own A') = fst ` set (own A1)"
      "\<forall>s t. has_edge A1 s t \<longrightarrow> has_edge A' s t"
      "\<forall>e \<in> set es. source e \<in> fst ` set (own A1) \<longrightarrow> has_edge A' (source e) (target e)"
    by auto
  show ?case using A1 A' by auto
qed

lemma good_neighbors:
  assumes "good A" "ordinary k"
  shows "\<exists>ns. neighbors A k = Inr ns \<and> (\<forall>t. t \<in> set ns \<longleftrightarrow> has_edge A k t) \<and> (\<forall>t \<in> set ns. ordinary t)"
proof (cases "map_of (own A) k")
  case None
  then show ?thesis using assms by (simp add: neighbors_def good_lookup has_edge_def)
next
  case (Some arr)
  then have "(k, arr) \<in> set (own A)" by (rule map_of_SomeD)
  then have "\<forall>t \<in> set arr. ordinary t" using assms by (auto simp: good_def)
  then show ?thesis using assms Some by (simp add: neighbors_def good_lookup has_edge_def)
qed

lemma dfs_ok_simps:
  "dfs_ok A seen st (Inl m, st') = False"
  "dfs_ok A seen st (Inr True, st') = True"
  "dfs_ok A seen st (Inr False, st') =
     (snd st' = snd st \<and> fst st \<subseteq> fst st' \<and> seen \<subseteq> fst st' \<and> seen \<inter> snd st = {} \<and>
      (\<forall>v \<in> fst st' - fst st. \<not> has_edge A v v))"
  by (simp_all add: dfs_ok_def)

lemma dfs_sound:
  "good A \<Longrightarrow> ordinary n \<Longrightarrow> dfs_ok A {n} st (hasCycle A n st)"
  "good A \<Longrightarrow> \<forall>m \<in> set ms. ordinary m \<Longrightarrow> dfs_ok A (set ms) st (for_neighbors A ms st)"
proof (induct A n st and A ms st rule: hasCycle_for_neighbors.induct)
  case (1 A nodeId st)
  obtain V R where st: "st = (V, R)" by (cases st)
  show ?case
  proof (cases "nodeId \<in> R")
    case True
    then show ?thesis using st by (subst hasCycle.simps) (simp add: dfs_ok_simps)
  next
    case notR: False
    show ?thesis
    proof (cases "nodeId \<in> V")
      case True
      then show ?thesis using st notR by (subst hasCycle.simps) (simp add: dfs_ok_simps)
    next
      case notV: False
      from good_neighbors[OF 1(2,3)] obtain ns where ns: "neighbors A nodeId = Inr ns"
        "\<forall>t. t \<in> set ns \<longleftrightarrow> has_edge A nodeId t" "\<forall>t \<in> set ns. ordinary t" by blast
      let ?st1 = "(insert nodeId V, insert nodeId R)"
      have ih: "dfs_ok A (set ns) ?st1 (for_neighbors A ns ?st1)"
        using 1(1)[OF st[symmetric] notR notV ns(1) 1(2) ns(3)] .
      obtain r V' R' where res: "for_neighbors A ns ?st1 = (r, (V', R'))"
        by (metis prod_cases3)
      show ?thesis
      proof (cases r)
        case (Inl m)
        with ih res show ?thesis by (simp add: dfs_ok_simps)
      next
        case (Inr b)
        show ?thesis
        proof (cases b)
          case True
          have "hasCycle A nodeId st = (Inr True, (V', R'))"
            using st notR notV ns(1) res Inr True by (subst hasCycle.simps) simp
          then show ?thesis by (simp add: dfs_ok_simps)
        next
          case False
          have h: "hasCycle A nodeId st = (Inr False, (V', R' - {nodeId}))"
            using st notR notV ns(1) res Inr False by (subst hasCycle.simps) simp
          from ih res Inr False have p: "R' = insert nodeId R" "insert nodeId V \<subseteq> V'"
            "set ns \<subseteq> V'" "set ns \<inter> insert nodeId R = {}"
            "\<forall>v \<in> V' - insert nodeId V. \<not> has_edge A v v"
            by (simp_all add: dfs_ok_simps)
          have "nodeId \<notin> set ns" using p(4) by auto
          then have "\<not> has_edge A nodeId nodeId" using ns(2) by simp
          then have "\<forall>v \<in> V' - V. \<not> has_edge A v v" using p(5) by auto
          moreover have "R' - {nodeId} = R" using p(1) notR by auto
          ultimately show ?thesis using h st p(2) notR by (simp add: dfs_ok_simps)
        qed
      qed
    qed
  qed
next
  case (2 A st)
  then show ?case by (simp add: dfs_ok_simps)
next
  case (3 A neighbor rest st)
  have first: "dfs_ok A {neighbor} st (hasCycle A neighbor st)"
    using 3(1)[OF 3(3)] 3(4) by simp
  obtain r st1 where res: "hasCycle A neighbor st = (r, st1)" by (cases "hasCycle A neighbor st")
  show ?case
  proof (cases r)
    case (Inl m)
    with first res show ?thesis by (simp add: dfs_ok_simps)
  next
    case (Inr b)
    show ?thesis
    proof (cases b)
      case True
      then show ?thesis using res Inr by (simp add: dfs_ok_simps)
    next
      case False
      from first res Inr False have p: "snd st1 = snd st" "fst st \<subseteq> fst st1"
        "neighbor \<in> fst st1" "neighbor \<notin> snd st" "\<forall>v \<in> fst st1 - fst st. \<not> has_edge A v v"
        by (simp_all add: dfs_ok_simps)
      have bF: "b = False" using False by simp
      have ih: "dfs_ok A (set rest) st1 (for_neighbors A rest st1)"
        using 3(2)[OF res[symmetric] Inr bF 3(3)] 3(4) by simp
      obtain r2 st2 where res2: "for_neighbors A rest st1 = (r2, st2)"
        by (cases "for_neighbors A rest st1")
      have eq: "for_neighbors A (neighbor # rest) st = (r2, st2)"
        using res Inr False res2 by simp
      show ?thesis
      proof (cases r2)
        case (Inl m)
        with ih res2 show ?thesis by (simp add: dfs_ok_simps)
      next
        case r2: (Inr b2)
        show ?thesis
        proof (cases b2)
          case True
          then show ?thesis using eq r2 by (simp add: dfs_ok_simps)
        next
          case False
          from ih res2 r2 False have q: "snd st2 = snd st1" "fst st1 \<subseteq> fst st2"
            "set rest \<subseteq> fst st2" "set rest \<inter> snd st1 = {}"
            "\<forall>v \<in> fst st2 - fst st1. \<not> has_edge A v v"
            by (simp_all add: dfs_ok_simps)
          have "\<forall>v \<in> fst st2 - fst st. \<not> has_edge A v v" using p(5) q(5) by blast
          then show ?thesis using eq r2 False p q by (auto simp: dfs_ok_simps)
        qed
      qed
    qed
  qed
qed

lemma check_from_finds_self_loop:
  assumes "good A" "\<forall>k \<in> set ks. ordinary k" "\<forall>v \<in> V. \<not> has_edge A v v"
    and "\<exists>k \<in> set ks. has_edge A k k"
  shows "check_from A ks (V, {}) = Inr False"
  using assms(2-)
proof (induction ks arbitrary: V)
  case Nil
  then show ?case by simp
next
  case (Cons k ks)
  have ok: "dfs_ok A {k} (V, {}) (hasCycle A k (V, {}))"
    using dfs_sound(1)[OF assms(1), of k "(V, {})"] Cons.prems(1) by simp
  obtain r V' R' where res: "hasCycle A k (V, {}) = (r, (V', R'))" by (metis prod_cases3)
  show ?case
  proof (cases r)
    case (Inl m)
    with ok res show ?thesis by (simp add: dfs_ok_simps)
  next
    case (Inr b)
    show ?thesis
    proof (cases b)
      case True
      then show ?thesis using res Inr by simp
    next
      case False
      from ok res Inr False have p: "R' = {}" "V \<subseteq> V'" "k \<in> V'"
        "\<forall>v \<in> V' - V. \<not> has_edge A v v" by (simp_all add: dfs_ok_simps)
      have clean: "\<forall>v \<in> V'. \<not> has_edge A v v" using p(4) Cons.prems(2) by blast
      then have "\<not> has_edge A k k" using p(3) by blast
      then have "\<exists>k \<in> set ks. has_edge A k k" using Cons.prems(3) by auto
      then have "check_from A ks (V', {}) = Inr False"
        using Cons.IH[OF _ clean] Cons.prems(1) by simp
      then show ?thesis using res Inr False p(1) by simp
    qed
  qed
qed

lemma Object_keys_set: "set (Object_keys A) = fst ` set (own A)"
  by (auto simp: Object_keys_def)

lemma self_loop_detected:
  assumes "ordinary_graph ns es"
    and "e \<in> set es" "source e = target e" "source e \<in> nid ` set ns"
  shows "checkIfDAG ns es = Inr False"
proof -
  let ?A0 = "foldl add_node \<lparr>own = [], proto = ObjectPrototype\<rparr> ns"
  have "good \<lparr>own = [], proto = ObjectPrototype\<rparr>" by (simp add: good_def)
  then have g0: "good ?A0" and k0: "fst ` set (own ?A0) = nid ` set ns"
    using add_nodes_good[of "\<lparr>own = [], proto = ObjectPrototype\<rparr>" ns] assms(1)
    by (simp_all add: ordinary_graph_def)
  from add_edges_good[OF g0, of es] assms(1) obtain A where A: "add_edges ?A0 es = Inr A" "good A"
    "fst ` set (own A) = fst ` set (own ?A0)"
    "\<forall>e \<in> set es. source e \<in> fst ` set (own ?A0) \<longrightarrow> has_edge A (source e) (target e)"
    by (auto simp: ordinary_graph_def)
  have loop: "has_edge A (source e) (source e)" using A(4) assms(2,3,4) k0 by auto
  have keys: "set (Object_keys A) = nid ` set ns" using A(3) k0 by (simp add: Object_keys_set)
  have "\<forall>k \<in> set (Object_keys A). ordinary k"
    using keys assms(1) by (auto simp: ordinary_graph_def)
  moreover have "\<exists>k \<in> set (Object_keys A). has_edge A k k" using keys loop assms(4) by auto
  ultimately have "check_from A (Object_keys A) ({}, {}) = Inr False"
    using check_from_finds_self_loop[OF A(2), of "Object_keys A" "{}"] by simp
  then show ?thesis using A(1) by (simp add: checkIfDAG_def build_adj_def)
qed

end
